theory Spec2Isabelle
  imports Main "HOL-Library.Word"
begin

section \<open>Recorded spans, log records and trace rows\<close>

text \<open>
  A \<open>time.Time\<close> instant is modelled as the (unbounded) number of nanoseconds since the
  Unix epoch; \<open>t.Before(u)\<close> is \<open>t < u\<close>. Span identifiers are \<open>uint64\<close>; a
  \<open>time.Duration\<close> is a number of nanoseconds and is only compared with zero.
\<close>

record RecordedSpan_LogRecord_Field =
  Key :: string
  Value :: string

record RecordedSpan_LogRecord =
  Time :: int
  Fields :: "RecordedSpan_LogRecord_Field list"

record RecordedSpan =
  SpanID :: "64 word"
  ParentSpanID :: "64 word"
  Operation :: string
  StartTime :: int
  Duration :: int
  Logs :: "RecordedSpan_LogRecord list"

text \<open>
  \<open>spanWithIndex\<close> embeds a pointer to an element of the input slice together with the
  position of that element; the pointer is modelled by the element it points to.
\<close>

record spanWithIndex =
  recordedSpan :: RecordedSpan
  index :: nat

text \<open>The field \<open>index\<close> of \<open>logRecordRow\<close> is called \<open>msg_index\<close> here.\<close>

record logRecordRow =
  timestamp :: int
  msg :: string
  span :: spanWithIndex
  msg_index :: nat

datatype datum =
    DNull
  | DInt int
  | DString string
  | DInterval int
  | DTimestampTZ int

text \<open>
  \<open>traceRow\<close> is \<open>[8]tree.Datum\<close>; the selectors are named after the columns listed in
  the comment on the type.
\<close>

datatype traceRow =
  TraceRow (col_span_idx: datum) (col_message_idx: datum) (col_timestamp: datum)
    (col_duration: datum) (col_operation: datum) (col_location: datum) (col_tag: datum)
    (col_message: datum)

text \<open>
  The outcomes of the reduction and of session tracing other than a result: the errors
  they return (a duplicate span, a message that cannot be split, a transaction without a
  span), and the run-time panics of an index or a slice expression out of range and of a
  nil span.
\<close>

datatype error =
    DuplicateSpan "64 word"
  | UnableToSplit string
  | IndexOutOfRange
  | SliceOutOfRange
  | NoTxnSpanForSessionTracing
  | NilPointerDereference

section \<open>The span forest reducer\<close>

fun extractMsgFromFields :: "RecordedSpan_LogRecord_Field list \<Rightarrow> string" where
  "extractMsgFromFields [] = ''<event missing in trace message>''"
| "extractMsgFromFields (f # fs) =
     (if Key f = ''event'' then Value f
      else if Key f = ''error'' then ''error:'' @ Value f
      else extractMsgFromFields fs)"

definition extractMsgFromRecord :: "RecordedSpan_LogRecord \<Rightarrow> string" where
  "extractMsgFromRecord rec = extractMsgFromFields (Fields rec)"

definition getOrderedChildSpans :: "64 word \<Rightarrow> RecordedSpan list \<Rightarrow> spanWithIndex list" where
  "getOrderedChildSpans spanID allSpans =
     map (\<lambda>i. \<lparr>recordedSpan = allSpans ! i, index = i\<rparr>)
       (filter (\<lambda>i. ParentSpanID (allSpans ! i) = spanID) [0..<length allSpans])"

text \<open>
  The sentinel \<open>time.Date(6000, 0, 0, 0, 0, 0, 0, time.UTC)\<close>: month 0 and day 0 are
  normalised, which gives 5999-11-30T00:00:00Z.
\<close>

definition maxTime :: int where
  "maxTime = 127171728000000000000"

definition spanStartMsg :: "string \<Rightarrow> string" where
  "spanStartMsg operation = ''=== SPAN START: '' @ operation @ '' ===''"

text \<open>
  \<open>getMessagesForSubtrace\<close> and its merge loop. The map \<open>seenSpans\<close>, which the source
  mutates in place, is passed in and returned. \<open>span.Logs[i]\<close> and \<open>childSpans[j]\<close>
  panic when the cursor is past the end, which happens when the other head lies at or
  beyond the sentinel.
\<close>

function getMessagesForSubtrace ::
    "spanWithIndex \<Rightarrow> RecordedSpan list \<Rightarrow> 64 word set \<Rightarrow>
      error + (logRecordRow list \<times> 64 word set)"
  and getMessagesForSubtrace_loop ::
    "spanWithIndex \<Rightarrow> RecordedSpan list \<Rightarrow> nat \<Rightarrow> nat \<Rightarrow> 64 word set \<Rightarrow>
      logRecordRow list \<Rightarrow> error + (logRecordRow list \<times> 64 word set)"
where
  "getMessagesForSubtrace sp allSpans seenSpans =
     (if SpanID (recordedSpan sp) \<in> seenSpans
      then Inl (DuplicateSpan (SpanID (recordedSpan sp)))
      else getMessagesForSubtrace_loop sp allSpans 0 0
             (insert (SpanID (recordedSpan sp)) seenSpans)
             [\<lparr>timestamp = StartTime (recordedSpan sp),
               msg = spanStartMsg (Operation (recordedSpan sp)),
               span = sp, msg_index = 0\<rparr>])"
| "getMessagesForSubtrace_loop sp allSpans i j seenSpans allLogs =
     (let childSpans = getOrderedChildSpans (SpanID (recordedSpan sp)) allSpans;
          logs = Logs (recordedSpan sp)
      in
        if i < length logs \<or> j < length childSpans then
          let logTime = (if i < length logs then Time (logs ! i) else maxTime);
              childTime =
                (if j < length childSpans then StartTime (recordedSpan (childSpans ! j))
                 else maxTime)
          in
            if logTime < childTime then
              (if i < length logs then
                 getMessagesForSubtrace_loop sp allSpans (i + 1) j seenSpans
                   (allLogs @
                     [\<lparr>timestamp = logTime, msg = extractMsgFromRecord (logs ! i),
                       span = sp, msg_index = i + 1\<rparr>])
               else Inl IndexOutOfRange)
            else
              (if j < length childSpans then
                 (case getMessagesForSubtrace (childSpans ! j) allSpans seenSpans of
                    Inl err \<Rightarrow> Inl err
                  | Inr (childMsgs, seenSpans') \<Rightarrow>
                      getMessagesForSubtrace_loop sp allSpans i (j + 1) seenSpans'
                        (allLogs @ childMsgs))
               else Inl IndexOutOfRange)
        else Inr (allLogs, seenSpans))"
  by pat_completeness auto

text \<open>
  Termination: every call of \<open>getMessagesForSubtrace\<close> that does not fail at once adds
  a new identifier of the input to \<open>seenSpans\<close>, and \<open>seenSpans\<close> only grows.
\<close>

lemma getMessagesForSubtrace_seen_mono_dom:
  "getMessagesForSubtrace_getMessagesForSubtrace_loop_dom (Inl (sp, allSpans, seen)) \<Longrightarrow>
     (\<forall>msgs seen'. getMessagesForSubtrace sp allSpans seen = Inr (msgs, seen') \<longrightarrow> seen \<subseteq> seen')"
  "getMessagesForSubtrace_getMessagesForSubtrace_loop_dom (Inr (sp, allSpans, i, j, seen, acc)) \<Longrightarrow>
     (\<forall>msgs seen'. getMessagesForSubtrace_loop sp allSpans i j seen acc = Inr (msgs, seen') \<longrightarrow> seen \<subseteq> seen')"
proof (induction rule: getMessagesForSubtrace_getMessagesForSubtrace_loop.pinduct)
  case (1 sp allSpans seenSpans)
  then show ?case
    by (auto simp: getMessagesForSubtrace.psimps split: if_splits)
next
  case (2 sp allSpans i j seenSpans allLogs)
  define cs where "cs = getOrderedChildSpans (SpanID (recordedSpan sp)) allSpans"
  define logs where "logs = Logs (recordedSpan sp)"
  define lt where "lt = (if i < length logs then Time (logs ! i) else maxTime)"
  define ct where "ct = (if j < length cs then StartTime (recordedSpan (cs ! j)) else maxTime)"
  note defs = cs_def logs_def lt_def ct_def
  have step: "getMessagesForSubtrace_loop sp allSpans i j seenSpans allLogs =
     (if i < length logs \<or> j < length cs then
        if lt < ct then
          (if i < length logs then
             getMessagesForSubtrace_loop sp allSpans (i + 1) j seenSpans
               (allLogs @ [\<lparr>timestamp = lt, msg = extractMsgFromRecord (logs ! i),
                       span = sp, msg_index = i + 1\<rparr>])
           else Inl IndexOutOfRange)
        else
          (if j < length cs then
             (case getMessagesForSubtrace (cs ! j) allSpans seenSpans of
                Inl err \<Rightarrow> Inl err
              | Inr (childMsgs, seenSpans') \<Rightarrow>
                  getMessagesForSubtrace_loop sp allSpans i (j + 1) seenSpans'
                    (allLogs @ childMsgs))
           else Inl IndexOutOfRange)
      else Inr (allLogs, seenSpans))"
    unfolding defs getMessagesForSubtrace_loop.psimps[OF 2(1)] Let_def ..
  show ?case
  proof (intro allI impI)
    fix msgs seen'
    assume eq: "getMessagesForSubtrace_loop sp allSpans i j seenSpans allLogs = Inr (msgs, seen')"
    show "seenSpans \<subseteq> seen'"
    proof (cases "i < length logs \<or> j < length cs")
      case False
      with eq step show ?thesis by simp
    next
      case more: True
      show ?thesis
      proof (cases "lt < ct")
        case True
        show ?thesis
        proof (cases "i < length logs")
          case il: True
          with eq step more True 2(2)[OF cs_def logs_def more lt_def ct_def True il]
          show ?thesis by simp
        next
          case False
          with eq step more True show ?thesis by simp
        qed
      next
        case nlt: False
        show ?thesis
        proof (cases "j < length cs")
          case jl: True
          show ?thesis
          proof (cases "getMessagesForSubtrace (cs ! j) allSpans seenSpans")
            case (Inl e)
            with eq step more nlt jl show ?thesis by simp
          next
            case (Inr b)
            obtain childMsgs seen1 where b: "b = (childMsgs, seen1)" by (cases b)
            have s1: "seenSpans \<subseteq> seen1"
              using 2(3)[OF cs_def logs_def more lt_def ct_def nlt jl] Inr b by simp
            have "seen1 \<subseteq> seen'"
              using eq step more nlt jl Inr b
                2(4)[OF cs_def logs_def more lt_def ct_def nlt jl Inr b[symmetric]]
              by simp
            with s1 show ?thesis by blast
          qed
        next
          case False
          with eq step more nlt show ?thesis by simp
        qed
      qed
    qed
  qed
qed

lemma getOrderedChildSpans_in_allSpans:
  "j < length (getOrderedChildSpans spanID allSpans) \<Longrightarrow>
   recordedSpan (getOrderedChildSpans spanID allSpans ! j) \<in> set allSpans"
  by (auto simp: getOrderedChildSpans_def dest!: nth_mem)

termination getMessagesForSubtrace
proof (relation "measures [
     (\<lambda>x. case x of Inl (sp, all, seen) \<Rightarrow> 2 * card ((SpanID ` set all \<union> {SpanID (recordedSpan sp)}) - seen)
               | Inr (sp, all, i, j, seen, acc) \<Rightarrow> 2 * card (SpanID ` set all - seen) + 1),
     (\<lambda>x. case x of Inl (sp, all, seen) \<Rightarrow> 0
               | Inr (sp, all, i, j, seen, acc) \<Rightarrow> (length (Logs (recordedSpan sp)) - i) + (length (getOrderedChildSpans (SpanID (recordedSpan sp)) all) - j))]", goal_cases)
  case 1
  then show ?case by simp
next
  case (2 sp allSpans seenSpans)
  have "(SpanID ` set allSpans \<union> {SpanID (recordedSpan sp)}) - seenSpans
        = insert (SpanID (recordedSpan sp)) (SpanID ` set allSpans - insert (SpanID (recordedSpan sp)) seenSpans)"
    using 2 by auto
  then show ?case by simp
next
  case (3 sp allSpans i j seenSpans allLogs x xa xb xc)
  then show ?case by auto
next
  case (4 sp allSpans i j seenSpans allLogs x xa xb xc)
  then have "SpanID (recordedSpan (x ! j)) \<in> SpanID ` set allSpans"
    using getOrderedChildSpans_in_allSpans by blast
  then have "SpanID ` set allSpans \<union> {SpanID (recordedSpan (x ! j))} = SpanID ` set allSpans"
    by auto
  then show ?case by simp
next
  case (5 sp allSpans i j seenSpans allLogs x xa xb xc b xd y)
  then have "seenSpans \<subseteq> y"
    using getMessagesForSubtrace_seen_mono_dom(1) by metis
  then have "card (SpanID ` set allSpans - y) \<le> card (SpanID ` set allSpans - seenSpans)"
    by (intro card_mono) auto
  with 5 show ?case by auto
qed

declare getMessagesForSubtrace.simps [simp del]
declare getMessagesForSubtrace_loop.simps [simp del]

text \<open>
  Names for the rows and the test of the merge loop, and the equations of the two
  functions in terms of them.
\<close>

definition spanStartRow :: "spanWithIndex \<Rightarrow> logRecordRow" where
  "spanStartRow sp =
     \<lparr>timestamp = StartTime (recordedSpan sp),
      msg = spanStartMsg (Operation (recordedSpan sp)), span = sp, msg_index = 0\<rparr>"

definition logRow :: "spanWithIndex \<Rightarrow> nat \<Rightarrow> logRecordRow" where
  "logRow sp i =
     \<lparr>timestamp = Time (Logs (recordedSpan sp) ! i),
      msg = extractMsgFromRecord (Logs (recordedSpan sp) ! i), span = sp, msg_index = i + 1\<rparr>"

definition childSpansOf :: "spanWithIndex \<Rightarrow> RecordedSpan list \<Rightarrow> spanWithIndex list" where
  "childSpansOf sp allSpans = getOrderedChildSpans (SpanID (recordedSpan sp)) allSpans"

definition logBeforeChild :: "spanWithIndex \<Rightarrow> RecordedSpan list \<Rightarrow> nat \<Rightarrow> nat \<Rightarrow> bool" where
  "logBeforeChild sp allSpans i j \<longleftrightarrow>
     (if i < length (Logs (recordedSpan sp)) then Time (Logs (recordedSpan sp) ! i) else maxTime)
       < (if j < length (childSpansOf sp allSpans)
          then StartTime (recordedSpan (childSpansOf sp allSpans ! j)) else maxTime)"

lemma getMessagesForSubtrace_eq:
  "getMessagesForSubtrace sp allSpans seen =
     (if SpanID (recordedSpan sp) \<in> seen then Inl (DuplicateSpan (SpanID (recordedSpan sp)))
      else getMessagesForSubtrace_loop sp allSpans 0 0 (insert (SpanID (recordedSpan sp)) seen)
             [spanStartRow sp])"
  by (simp add: getMessagesForSubtrace.simps spanStartRow_def)

lemma getMessagesForSubtrace_loop_eq:
  "getMessagesForSubtrace_loop sp allSpans i j seen acc =
     (if i < length (Logs (recordedSpan sp)) \<or> j < length (childSpansOf sp allSpans) then
        if logBeforeChild sp allSpans i j then
          (if i < length (Logs (recordedSpan sp))
           then getMessagesForSubtrace_loop sp allSpans (i + 1) j seen (acc @ [logRow sp i])
           else Inl IndexOutOfRange)
        else
          (if j < length (childSpansOf sp allSpans) then
             (case getMessagesForSubtrace (childSpansOf sp allSpans ! j) allSpans seen of
                Inl err \<Rightarrow> Inl err
              | Inr (childMsgs, seen') \<Rightarrow>
                  getMessagesForSubtrace_loop sp allSpans i (j + 1) seen' (acc @ childMsgs))
           else Inl IndexOutOfRange)
      else Inr (acc, seen))"
  by (subst getMessagesForSubtrace_loop.simps)
     (simp add: Let_def logBeforeChild_def childSpansOf_def logRow_def)

text \<open>
  Induction over the calls of a run that returns rows: one case for a call of
  \<open>getMessagesForSubtrace\<close>, and one for each way through the loop.
\<close>

lemma getMessagesForSubtrace_success_induct_aux:
  assumes get: "\<And>sp seen out seen'.
      \<lbrakk>SpanID (recordedSpan sp) \<notin> seen;
       getMessagesForSubtrace_loop sp allSpans 0 0 (insert (SpanID (recordedSpan sp)) seen)
         [spanStartRow sp] = Inr (out, seen');
       Q sp 0 0 (insert (SpanID (recordedSpan sp)) seen) [spanStartRow sp] out seen'\<rbrakk>
      \<Longrightarrow> P sp seen out seen'"
    and fin: "\<And>sp i j seen acc.
      \<lbrakk>\<not> i < length (Logs (recordedSpan sp)); \<not> j < length (childSpansOf sp allSpans)\<rbrakk>
      \<Longrightarrow> Q sp i j seen acc acc seen"
    and log: "\<And>sp i j seen acc out seen'.
      \<lbrakk>i < length (Logs (recordedSpan sp)); logBeforeChild sp allSpans i j;
       getMessagesForSubtrace_loop sp allSpans (i + 1) j seen (acc @ [logRow sp i]) = Inr (out, seen');
       Q sp (i + 1) j seen (acc @ [logRow sp i]) out seen'\<rbrakk>
      \<Longrightarrow> Q sp i j seen acc out seen'"
    and child: "\<And>sp i j seen acc msgs seen1 out seen'.
      \<lbrakk>j < length (childSpansOf sp allSpans); \<not> logBeforeChild sp allSpans i j;
       getMessagesForSubtrace (childSpansOf sp allSpans ! j) allSpans seen = Inr (msgs, seen1);
       P (childSpansOf sp allSpans ! j) seen msgs seen1;
       getMessagesForSubtrace_loop sp allSpans i (j + 1) seen1 (acc @ msgs) = Inr (out, seen');
       Q sp i (j + 1) seen1 (acc @ msgs) out seen'\<rbrakk>
      \<Longrightarrow> Q sp i j seen acc out seen'"
  shows "getMessagesForSubtrace sp allSpans seen = Inr (out, seen') \<Longrightarrow> P sp seen out seen'"
    and "getMessagesForSubtrace_loop sp allSpans i j seen acc = Inr (out, seen') \<Longrightarrow>
           Q sp i j seen acc out seen'"
proof -
  have "(\<forall>out seen'. allSpans' = allSpans \<longrightarrow>
            getMessagesForSubtrace sp allSpans' seen = Inr (out, seen') \<longrightarrow> P sp seen out seen')"
    and "(\<forall>out seen'. allSpans' = allSpans \<longrightarrow>
            getMessagesForSubtrace_loop sp allSpans' i j seen acc = Inr (out, seen') \<longrightarrow>
            Q sp i j seen acc out seen')" for allSpans'
  proof (induction sp allSpans' seen and sp allSpans' i j seen acc
      rule: getMessagesForSubtrace_getMessagesForSubtrace_loop.induct)
    case (1 sp allSpans' seenSpans)
    show ?case
    proof (intro allI impI)
      fix out seen'
      assume a: "allSpans' = allSpans"
        and r: "getMessagesForSubtrace sp allSpans' seenSpans = Inr (out, seen')"
      from r have ns: "SpanID (recordedSpan sp) \<notin> seenSpans"
        by (auto simp: getMessagesForSubtrace_eq split: if_splits)
      with r a have l: "getMessagesForSubtrace_loop sp allSpans 0 0
          (insert (SpanID (recordedSpan sp)) seenSpans) [spanStartRow sp] = Inr (out, seen')"
        by (simp add: getMessagesForSubtrace_eq)
      from 1[OF ns] a l have "Q sp 0 0 (insert (SpanID (recordedSpan sp)) seenSpans)
          [spanStartRow sp] out seen'"
        by (simp add: spanStartRow_def)
      with ns l show "P sp seenSpans out seen'" by (rule get)
    qed
  next
    case (2 sp allSpans' i j seenSpans allLogs)
    show ?case
    proof (intro allI impI)
      fix out seen'
      assume a: "allSpans' = allSpans"
        and r: "getMessagesForSubtrace_loop sp allSpans' i j seenSpans allLogs = Inr (out, seen')"
      note r' = r[unfolded a]
      note ih1 = 2(1)[OF refl refl _ refl refl, unfolded a]
      note ih2 = 2(2)[OF refl refl _ refl refl, unfolded a]
      note ih3 = 2(3)[OF refl refl _ refl refl, unfolded a]
      show "Q sp i j seenSpans allLogs out seen'"
      proof (cases "i < length (Logs (recordedSpan sp)) \<or> j < length (childSpansOf sp allSpans)")
        case False
        with r' have "out = allLogs" "seen' = seenSpans"
          by (subst (asm) getMessagesForSubtrace_loop_eq; simp)+
        with False fin show ?thesis by simp
      next
        case more: True
        then have more': "i < length (Logs (recordedSpan sp)) \<or>
            j < length (getOrderedChildSpans (SpanID (recordedSpan sp)) allSpans)"
          by (simp add: childSpansOf_def)
        show ?thesis
        proof (cases "logBeforeChild sp allSpans i j")
          case True
          with r' more have il: "i < length (Logs (recordedSpan sp))"
            by (subst (asm) getMessagesForSubtrace_loop_eq) (simp split: if_splits)
          with r' more True
          have l: "getMessagesForSubtrace_loop sp allSpans (i + 1) j seenSpans
                     (allLogs @ [logRow sp i]) = Inr (out, seen')"
            by (subst (asm) getMessagesForSubtrace_loop_eq) simp
          have "Q sp (i + 1) j seenSpans (allLogs @ [logRow sp i]) out seen'"
            using ih1[OF more' True[unfolded logBeforeChild_def childSpansOf_def] il] l il
            by (simp add: logRow_def)
          with il True l show ?thesis by (rule log)
        next
          case nlt: False
          with r' more have jl: "j < length (childSpansOf sp allSpans)"
            by (subst (asm) getMessagesForSubtrace_loop_eq) (simp split: if_splits)
          from r' more nlt jl obtain msgs seen1 where
            g: "getMessagesForSubtrace (childSpansOf sp allSpans ! j) allSpans seenSpans
                  = Inr (msgs, seen1)"
            and l: "getMessagesForSubtrace_loop sp allSpans i (j + 1) seen1 (allLogs @ msgs)
                  = Inr (out, seen')"
            by (subst (asm) getMessagesForSubtrace_loop_eq)
               (auto split: sum.splits prod.splits)
          have nlt': "\<not> (if i < length (Logs (recordedSpan sp))
                        then Time (Logs (recordedSpan sp) ! i) else maxTime)
               < (if j < length (getOrderedChildSpans (SpanID (recordedSpan sp)) allSpans)
                  then StartTime (recordedSpan
                         (getOrderedChildSpans (SpanID (recordedSpan sp)) allSpans ! j))
                  else maxTime)"
            using nlt unfolding logBeforeChild_def childSpansOf_def .
          have jl': "j < length (getOrderedChildSpans (SpanID (recordedSpan sp)) allSpans)"
            using jl by (simp add: childSpansOf_def)
          have p: "P (childSpansOf sp allSpans ! j) seenSpans msgs seen1"
            using ih2[OF more' nlt' jl'] g by (simp add: childSpansOf_def)
          have q: "Q sp i (j + 1) seen1 (allLogs @ msgs) out seen'"
            using ih3[OF more' nlt' jl' g[unfolded childSpansOf_def] refl] l by simp
          from jl nlt g p l q show ?thesis by (rule child)
        qed
      qed
    qed
  qed
  then show "getMessagesForSubtrace sp allSpans seen = Inr (out, seen') \<Longrightarrow> P sp seen out seen'"
    and "getMessagesForSubtrace_loop sp allSpans i j seen acc = Inr (out, seen') \<Longrightarrow>
           Q sp i j seen acc out seen'"
    by blast+
qed

lemma getMessagesForSubtrace_success_induct [consumes 1, case_names get fin log child]:
  assumes "getMessagesForSubtrace sp allSpans seen = Inr (out, seen')"
    and get: "\<And>sp seen out seen'.
      \<lbrakk>SpanID (recordedSpan sp) \<notin> seen;
       getMessagesForSubtrace_loop sp allSpans 0 0 (insert (SpanID (recordedSpan sp)) seen)
         [spanStartRow sp] = Inr (out, seen');
       Q sp 0 0 (insert (SpanID (recordedSpan sp)) seen) [spanStartRow sp] out seen'\<rbrakk>
      \<Longrightarrow> P sp seen out seen'"
    and fin: "\<And>sp i j seen acc.
      \<lbrakk>\<not> i < length (Logs (recordedSpan sp)); \<not> j < length (childSpansOf sp allSpans)\<rbrakk>
      \<Longrightarrow> Q sp i j seen acc acc seen"
    and log: "\<And>sp i j seen acc out seen'.
      \<lbrakk>i < length (Logs (recordedSpan sp)); logBeforeChild sp allSpans i j;
       getMessagesForSubtrace_loop sp allSpans (i + 1) j seen (acc @ [logRow sp i]) = Inr (out, seen');
       Q sp (i + 1) j seen (acc @ [logRow sp i]) out seen'\<rbrakk>
      \<Longrightarrow> Q sp i j seen acc out seen'"
    and child: "\<And>sp i j seen acc msgs seen1 out seen'.
      \<lbrakk>j < length (childSpansOf sp allSpans); \<not> logBeforeChild sp allSpans i j;
       getMessagesForSubtrace (childSpansOf sp allSpans ! j) allSpans seen = Inr (msgs, seen1);
       P (childSpansOf sp allSpans ! j) seen msgs seen1;
       getMessagesForSubtrace_loop sp allSpans i (j + 1) seen1 (acc @ msgs) = Inr (out, seen');
       Q sp i (j + 1) seen1 (acc @ msgs) out seen'\<rbrakk>
      \<Longrightarrow> Q sp i j seen acc out seen'"
  shows "P sp seen out seen'"
  apply (rule getMessagesForSubtrace_success_induct_aux(1)[where P = P and Q = Q, OF _ _ _ _ assms(1)])
     apply (rule get; assumption)
    apply (rule fin; assumption)
   apply (rule log; assumption)
  apply (rule child; assumption)
  done

lemma getMessagesForSubtrace_loop_success_induct [consumes 1, case_names get fin log child]:
  assumes "getMessagesForSubtrace_loop sp allSpans i j seen acc = Inr (out, seen')"
    and get: "\<And>sp seen out seen'.
      \<lbrakk>SpanID (recordedSpan sp) \<notin> seen;
       getMessagesForSubtrace_loop sp allSpans 0 0 (insert (SpanID (recordedSpan sp)) seen)
         [spanStartRow sp] = Inr (out, seen');
       Q sp 0 0 (insert (SpanID (recordedSpan sp)) seen) [spanStartRow sp] out seen'\<rbrakk>
      \<Longrightarrow> P sp seen out seen'"
    and fin: "\<And>sp i j seen acc.
      \<lbrakk>\<not> i < length (Logs (recordedSpan sp)); \<not> j < length (childSpansOf sp allSpans)\<rbrakk>
      \<Longrightarrow> Q sp i j seen acc acc seen"
    and log: "\<And>sp i j seen acc out seen'.
      \<lbrakk>i < length (Logs (recordedSpan sp)); logBeforeChild sp allSpans i j;
       getMessagesForSubtrace_loop sp allSpans (i + 1) j seen (acc @ [logRow sp i]) = Inr (out, seen');
       Q sp (i + 1) j seen (acc @ [logRow sp i]) out seen'\<rbrakk>
      \<Longrightarrow> Q sp i j seen acc out seen'"
    and child: "\<And>sp i j seen acc msgs seen1 out seen'.
      \<lbrakk>j < length (childSpansOf sp allSpans); \<not> logBeforeChild sp allSpans i j;
       getMessagesForSubtrace (childSpansOf sp allSpans ! j) allSpans seen = Inr (msgs, seen1);
       P (childSpansOf sp allSpans ! j) seen msgs seen1;
       getMessagesForSubtrace_loop sp allSpans i (j + 1) seen1 (acc @ msgs) = Inr (out, seen');
       Q sp i (j + 1) seen1 (acc @ msgs) out seen'\<rbrakk>
      \<Longrightarrow> Q sp i j seen acc out seen'"
  shows "Q sp i j seen acc out seen'"
  apply (rule getMessagesForSubtrace_success_induct_aux(2)[where P = P and Q = Q, OF _ _ _ _ assms(1)])
     apply (rule get; assumption)
    apply (rule fin; assumption)
   apply (rule log; assumption)
  apply (rule child; assumption)
  done

subsection \<open>Splitting a log message\<close>

text \<open>
  The part of \<open>regexp\<close> that \<open>logMessageRE\<close> needs: a backtracking matcher that lists
  the matches of an expression at a position in the order a backtracking search finds
  them (a greedy repetition tries one more iteration first, an alternation its left
  branch first). The first match of the list is the leftmost-first match that Go's
  \<open>regexp\<close> returns. A state is the position, the rest of the input and the submatches
  recorded so far. Input is matched byte by byte: every class that \<open>logMessageRE\<close>
  negates excludes ASCII characters only, and every literal is ASCII, so a match ends at
  the same positions as a match over runes.
\<close>

datatype regex =
    Class "char \<Rightarrow> bool"
  | Seq regex regex
  | Alt regex regex
  | Star regex
  | Quest regex
  | Capture nat regex
  | BeginText

type_synonym mstate = "nat \<times> string \<times> (nat \<rightharpoonup> nat \<times> nat)"

function backtrack :: "regex \<Rightarrow> mstate \<Rightarrow> mstate list" where
  "backtrack (Class P) (p, s, c) =
     (case s of [] \<Rightarrow> [] | x # xs \<Rightarrow> if P x then [(p + 1, xs, c)] else [])"
| "backtrack (Seq a b) st = concat (map (backtrack b) (backtrack a st))"
| "backtrack (Alt a b) st = backtrack a st @ backtrack b st"
| "backtrack (Star a) (p, s, c) =
     concat (map (\<lambda>(p', s', c'). if length s' < length s then backtrack (Star a) (p', s', c') else [])
               (backtrack a (p, s, c))) @ [(p, s, c)]"
| "backtrack (Quest a) st = backtrack a st @ [st]"
| "backtrack (Capture n a) (p, s, c) =
     map (\<lambda>(p', s', c'). (p', s', c'(n \<mapsto> (p, p')))) (backtrack a (p, s, c))"
| "backtrack BeginText (p, s, c) = (if p = 0 then [(p, s, c)] else [])"
  by pat_completeness auto
termination
  by (relation "measures [\<lambda>(r, p, s, c). size r, \<lambda>(r, p, s, c). length s]") auto

declare backtrack.simps(4) [simp del]

definition submatchIndex :: "nat \<Rightarrow> (nat \<rightharpoonup> nat \<times> nat) \<Rightarrow> int list" where
  "submatchIndex numSubexp c =
     concat (map (\<lambda>k. case c k of None \<Rightarrow> [- 1, - 1] | Some (a, b) \<Rightarrow> [int a, int b])
               [0..<numSubexp + 1])"

definition FindStringSubmatchIndex :: "regex \<Rightarrow> nat \<Rightarrow> string \<Rightarrow> int list option" where
  "FindStringSubmatchIndex re numSubexp s =
     (case concat (map (\<lambda>p. backtrack (Capture 0 re) (p, drop p s, Map.empty))
                     [0..<length s + 1]) of
        [] \<Rightarrow> None
      | (p', s', c') # _ \<Rightarrow> Some (submatchIndex numSubexp c'))"

definition lit :: "char \<Rightarrow> regex" where
  "lit x = Class (\<lambda>y. y = x)"

definition plus_re :: "regex \<Rightarrow> regex" where
  "plus_re r = Seq r (Star r)"

definition locationRE :: regex where
  "locationRE =
     (let w = plus_re (Class (\<lambda>x. x \<notin> set '']['' \<and> x \<noteq> CHR '' '' \<and> x \<noteq> CHR '':''))
      in Seq w (Seq (lit (CHR ''/'')) (Seq w (Seq (lit (CHR ''.'')) (Seq w
           (Seq (lit (CHR '':'')) (plus_re (Class (\<lambda>x. x \<in> set ''0123456789'')))))))))"

definition tagRE :: regex where
  "tagRE =
     Seq (lit (CHR ''[''))
       (Seq (Star (Alt (Class (\<lambda>x. x \<notin> set ''][''))
                       (Seq (lit (CHR ''[''))
                          (Seq (Star (Class (\<lambda>x. x \<noteq> CHR '']''))) (lit (CHR '']''))))))
          (lit (CHR '']'')))"

definition logMessageRE :: regex where
  "logMessageRE =
     Seq BeginText
       (Seq (Capture 1 (Quest locationRE))
          (Seq (Star (lit (CHR '' '')))
             (Seq (Capture 2 (Quest tagRE))
                (Seq (Star (lit (CHR '' '')))
                   (Capture 3 (Star (Class (\<lambda>x. True))))))))"

text \<open>A slice expression \<open>s[a:b]\<close> panics unless \<open>0 \<le> a \<le> b \<le> len(s)\<close>.\<close>

definition slice_expr :: "string \<Rightarrow> int \<Rightarrow> int \<Rightarrow> error + string" where
  "slice_expr s a b =
     (if 0 \<le> a \<and> a \<le> b \<and> b \<le> int (length s)
      then Inr (take (nat b - nat a) (drop (nat a) s))
      else Inl SliceOutOfRange)"

subsection \<open>generateSessionTraceVTable\<close>

text \<open>The first loop: the subtraces of the spans not seen yet, in input order.\<close>

function generateSessionTraceVTable_logs ::
    "RecordedSpan list \<Rightarrow> nat \<Rightarrow> 64 word set \<Rightarrow> logRecordRow list \<Rightarrow> error + logRecordRow list"
where
  "generateSessionTraceVTable_logs spans spanIdx seenSpans allLogs =
     (if spanIdx < length spans then
        if SpanID (spans ! spanIdx) \<in> seenSpans
        then generateSessionTraceVTable_logs spans (spanIdx + 1) seenSpans allLogs
        else
          (case getMessagesForSubtrace \<lparr>recordedSpan = spans ! spanIdx, index = spanIdx\<rparr>
                  spans seenSpans of
             Inl err \<Rightarrow> Inl err
           | Inr (msgs, seenSpans') \<Rightarrow>
               generateSessionTraceVTable_logs spans (spanIdx + 1) seenSpans' (allLogs @ msgs))
      else Inr allLogs)"
  by pat_completeness auto
termination
  by (relation "measure (\<lambda>(spans, spanIdx, seenSpans, allLogs). length spans - spanIdx)") auto

declare generateSessionTraceVTable_logs.simps [simp del]

text \<open>The body of the second loop: one log message becomes one row.\<close>

definition traceRowOf :: "logRecordRow \<Rightarrow> error + traceRow" where
  "traceRowOf lrr =
     (let operation =
            (if msg_index lrr = 0 then DString (Operation (recordedSpan (span lrr))) else DNull);
          dur =
            (if msg_index lrr = 0 \<and> Duration (recordedSpan (span lrr)) \<noteq> 0
             then DInterval (Duration (recordedSpan (span lrr))) else DNull)
      in
        case FindStringSubmatchIndex logMessageRE 3 (msg lrr) of
          None \<Rightarrow> Inl (UnableToSplit (msg lrr))
        | Some loc \<Rightarrow>
            (case slice_expr (msg lrr) (loc ! 2) (loc ! 3) of
               Inl err \<Rightarrow> Inl err
             | Inr location \<Rightarrow>
                 (case slice_expr (msg lrr) (loc ! 4) (loc ! 5) of
                    Inl err \<Rightarrow> Inl err
                  | Inr tag \<Rightarrow>
                      (case slice_expr (msg lrr) (loc ! 6) (loc ! 7) of
                         Inl err \<Rightarrow> Inl err
                       | Inr message \<Rightarrow>
                           Inr (TraceRow (DInt (int (index (span lrr))))
                                  (DInt (int (msg_index lrr)))
                                  (DTimestampTZ (timestamp lrr))
                                  dur operation
                                  (DString location) (DString tag) (DString message))))))"

fun generateSessionTraceVTable_rows ::
    "logRecordRow list \<Rightarrow> traceRow list \<Rightarrow> error + traceRow list"
where
  "generateSessionTraceVTable_rows [] res = Inr res"
| "generateSessionTraceVTable_rows (lrr # allLogs) res =
     (case traceRowOf lrr of
        Inl err \<Rightarrow> Inl err
      | Inr row \<Rightarrow> generateSessionTraceVTable_rows allLogs (res @ [row]))"

definition generateSessionTraceVTable :: "RecordedSpan list \<Rightarrow> error + traceRow list" where
  "generateSessionTraceVTable spans =
     (case generateSessionTraceVTable_logs spans 0 {} [] of
        Inl err \<Rightarrow> Inl err
      | Inr allLogs \<Rightarrow> generateSessionTraceVTable_rows allLogs [])"

section \<open>Properties of the reducer\<close>

subsection \<open>Example inputs\<close>

text \<open>
  A root span with one log entry at time 5 and one child span that starts at time 5.
\<close>

definition tie_spans :: "RecordedSpan list" where
  "tie_spans =
     [\<lparr>SpanID = 1, ParentSpanID = 0, Operation = ''a'', StartTime = 1, Duration = 0,
        Logs = [\<lparr>Time = 5, Fields = [\<lparr>Key = ''event'', Value = ''x''\<rparr>]\<rparr>]\<rparr>,
      \<lparr>SpanID = 2, ParentSpanID = 1, Operation = ''b'', StartTime = 5, Duration = 7,
        Logs = []\<rparr>]"

text \<open>Two root spans with the same identifier.\<close>

definition twin_spans :: "RecordedSpan list" where
  "twin_spans =
     [\<lparr>SpanID = 1, ParentSpanID = 0, Operation = ''a'', StartTime = 1, Duration = 0, Logs = []\<rparr>,
      \<lparr>SpanID = 1, ParentSpanID = 0, Operation = ''b'', StartTime = 2, Duration = 0, Logs = []\<rparr>]"

subsection \<open>The merge of log entries and child subtrees\<close>

lemma getMessagesForSubtrace_loop_emits_log:
  assumes "getMessagesForSubtrace_loop sp allSpans i j seen acc = Inr (out, seen')"
  shows "\<exists>rest. out = acc @ rest \<and> (i < length (Logs (recordedSpan sp)) \<longrightarrow> logRow sp i \<in> set rest)"
  using assms
proof (induct rule: getMessagesForSubtrace_loop_success_induct[where P = "\<lambda>sp seen out seen'. True"])
  case (get sp seen out seen')
  then show ?case by simp
next
  case (fin sp i j seen acc)
  then show ?case by simp
next
  case (log sp i j seen acc out seen')
  then show ?case by auto
next
  case (child sp i j seen acc msgs seen1 out seen')
  then show ?case by auto
qed

lemma getMessagesForSubtrace_hd:
  "getMessagesForSubtrace sp allSpans seen = Inr (msgs, seen') \<Longrightarrow>
     \<exists>rest. msgs = spanStartRow sp # rest"
  using getMessagesForSubtrace_loop_emits_log[of sp allSpans 0 0 "insert (SpanID (recordedSpan sp)) seen" "[spanStartRow sp]" msgs seen']
  by (auto simp: getMessagesForSubtrace_eq split: if_splits)

text \<open>
  C2 (as the code has it). When the head log entry and the head child span carry the same
  time, \<open>logTime.Before(childTime)\<close> is false and the loop takes the child: the rows
  of the child's subtree, beginning with its start row, come next, and the log entry is
  emitted only after them.
\<close>

theorem tie_child_first:
  assumes "i < length (Logs (recordedSpan sp))"
    and "j < length (childSpansOf sp allSpans)"
    and "Time (Logs (recordedSpan sp) ! i) = StartTime (recordedSpan (childSpansOf sp allSpans ! j))"
    and "getMessagesForSubtrace_loop sp allSpans i j seen acc = Inr (out, seen')"
  shows "\<exists>childMsgs seen1 rest.
           getMessagesForSubtrace (childSpansOf sp allSpans ! j) allSpans seen = Inr (childMsgs, seen1) \<and>
           hd childMsgs = spanStartRow (childSpansOf sp allSpans ! j) \<and> childMsgs \<noteq> [] \<and>
           out = acc @ childMsgs @ rest \<and> logRow sp i \<in> set rest"
proof -
  have nb: "\<not> logBeforeChild sp allSpans i j"
    using assms(1-3) by (simp add: logBeforeChild_def)
  from assms(4) assms(1,2) nb obtain childMsgs seen1 where
    g: "getMessagesForSubtrace (childSpansOf sp allSpans ! j) allSpans seen = Inr (childMsgs, seen1)"
    and l: "getMessagesForSubtrace_loop sp allSpans i (j + 1) seen1 (acc @ childMsgs) = Inr (out, seen')"
    by (subst (asm) getMessagesForSubtrace_loop_eq) (auto split: sum.splits prod.splits)
  from getMessagesForSubtrace_loop_emits_log[OF l] assms(1) obtain rest where
    "out = acc @ childMsgs @ rest" "logRow sp i \<in> set rest" by auto
  moreover from getMessagesForSubtrace_hd[OF g] have "hd childMsgs = spanStartRow (childSpansOf sp allSpans ! j)" "childMsgs \<noteq> []"
    by auto
  ultimately show ?thesis using g by blast
qed

theorem tie_child_first_witness:
  "0 < length (Logs (recordedSpan \<lparr>recordedSpan = tie_spans ! 0, index = 0\<rparr>)) \<and>
   0 < length (childSpansOf \<lparr>recordedSpan = tie_spans ! 0, index = 0\<rparr> tie_spans) \<and>
   Time (Logs (recordedSpan \<lparr>recordedSpan = tie_spans ! 0, index = 0\<rparr>) ! 0) =
     StartTime (recordedSpan (childSpansOf \<lparr>recordedSpan = tie_spans ! 0, index = 0\<rparr> tie_spans ! 0)) \<and>
   (\<exists>childMsgs seen1 rest.
      getMessagesForSubtrace (childSpansOf \<lparr>recordedSpan = tie_spans ! 0, index = 0\<rparr> tie_spans ! 0)
        tie_spans {1} = Inr (childMsgs, seen1) \<and>
      hd childMsgs = spanStartRow (childSpansOf \<lparr>recordedSpan = tie_spans ! 0, index = 0\<rparr> tie_spans ! 0) \<and>
      childMsgs \<noteq> [] \<and>
      [spanStartRow \<lparr>recordedSpan = tie_spans ! 1, index = 1\<rparr>,
       logRow \<lparr>recordedSpan = tie_spans ! 0, index = 0\<rparr> 0] = [] @ childMsgs @ rest \<and>
      logRow \<lparr>recordedSpan = tie_spans ! 0, index = 0\<rparr> 0 \<in> set rest)"
proof -
  let ?sp = "\<lparr>recordedSpan = tie_spans ! 0, index = 0\<rparr>"
  have h1: "0 < length (Logs (recordedSpan ?sp))"
    by code_simp
  have h2: "0 < length (childSpansOf ?sp tie_spans)"
    by code_simp
  have h3: "Time (Logs (recordedSpan ?sp) ! 0) =
      StartTime (recordedSpan (childSpansOf ?sp tie_spans ! 0))"
    by code_simp
  have h4: "getMessagesForSubtrace_loop ?sp tie_spans 0 0 {1} [] =
      Inr ([spanStartRow \<lparr>recordedSpan = tie_spans ! 1, index = 1\<rparr>, logRow ?sp 0], {1, 2})"
    by code_simp
  from tie_child_first[OF h1 h2 h3 h4] h1 h2 h3 show ?thesis
    by blast
qed

text \<open>
  The claim as the specification states it (ties favour the log entry) fails on
  \<open>tie_spans\<close>: the child's start row, at time 5, precedes the log row of time 5.
\<close>

theorem tie_favours_log_counterexample:
  "generateSessionTraceVTable tie_spans =
     Inr [TraceRow (DInt 0) (DInt 0) (DTimestampTZ 1) DNull (DString ''a'')
            (DString []) (DString []) (DString ''=== SPAN START: a ===''),
          TraceRow (DInt 1) (DInt 0) (DTimestampTZ 5) (DInterval 7) (DString ''b'')
            (DString []) (DString []) (DString ''=== SPAN START: b ===''),
          TraceRow (DInt 0) (DInt 1) (DTimestampTZ 5) DNull DNull
            (DString []) (DString []) (DString ''x'')]"
  by code_simp

subsection \<open>Duplicate span identifiers\<close>

text \<open>
  The claim C1 as the specification states it fails on \<open>twin_spans\<close>: the second span has
  the identifier of the first, the first loop skips it as already seen, and the reduction
  returns the row of the first span and no error.
\<close>

theorem duplicate_root_dropped_counterexample:
  "generateSessionTraceVTable twin_spans =
     Inr [TraceRow (DInt 0) (DInt 0) (DTimestampTZ 1) DNull (DString ''a'')
            (DString []) (DString []) (DString ''=== SPAN START: a ==='')]"
  by code_simp

subsection \<open>Message decomposition never fails\<close>

lemma backtrack_Star_nonempty: "backtrack (Star a) st \<noteq> []"
  by (cases st) (simp add: backtrack.simps(4))

lemma backtrack_Quest_nonempty: "backtrack (Quest a) st \<noteq> []"
  by simp

lemma backtrack_Seq_nonempty:
  assumes "backtrack a st \<noteq> []" and "\<And>st'. backtrack b st' \<noteq> []"
  shows "backtrack (Seq a b) st \<noteq> []"
proof -
  from assms(1) obtain x xs where "backtrack a st = x # xs" by (cases "backtrack a st") auto
  with assms(2)[of x] show ?thesis by simp
qed

lemma backtrack_Capture_nonempty:
  "backtrack a st \<noteq> [] \<Longrightarrow> backtrack (Capture n a) st \<noteq> []"
  by (cases st) simp

lemma backtrack_logMessageRE_nonempty:
  "backtrack (Capture 0 logMessageRE) (0, s, c) \<noteq> []"
  unfolding logMessageRE_def
  by (intro backtrack_Capture_nonempty backtrack_Seq_nonempty backtrack_Star_nonempty
      backtrack_Quest_nonempty) simp

text \<open>The groups that are set in every match of an expression.\<close>

fun sure_groups :: "regex \<Rightarrow> nat set" where
  "sure_groups (Capture n a) = insert n (sure_groups a)"
| "sure_groups (Seq a b) = sure_groups a \<union> sure_groups b"
| "sure_groups (Class P) = {}"
| "sure_groups (Alt a b) = {}"
| "sure_groups (Star a) = {}"
| "sure_groups (Quest a) = {}"
| "sure_groups BeginText = {}"

text \<open>
  What one match does to a state: it consumes a prefix of the rest of the input, keeps the
  submatches recorded before, and records new ones inside the part it consumed.
\<close>

definition mstate_step :: "mstate \<Rightarrow> mstate \<Rightarrow> bool" where
  "mstate_step st st' \<longleftrightarrow>
     (case (st, st') of ((p, s, c), (p', s', c')) \<Rightarrow>
        p' + length s' = p + length s \<and> p \<le> p' \<and>
        (\<forall>n a b. c' n = Some (a, b) \<longrightarrow> c n = Some (a, b) \<or> (p \<le> a \<and> a \<le> b \<and> b \<le> p')) \<and>
        (\<forall>n. c n \<noteq> None \<longrightarrow> c' n \<noteq> None))"

lemma mstate_step_refl: "mstate_step st st"
  by (auto simp: mstate_step_def split: prod.splits)

lemma mstate_step_trans:
  assumes "mstate_step x y" and "mstate_step y z"
  shows "mstate_step x z"
proof -
  obtain p s c where x: "x = (p, s, c)" by (cases x)
  obtain p1 s1 c1 where y: "y = (p1, s1, c1)" by (cases y)
  obtain p2 s2 c2 where z: "z = (p2, s2, c2)" by (cases z)
  from assms(1) have xy: "p1 + length s1 = p + length s" "p \<le> p1"
    "\<And>n a b. c1 n = Some (a, b) \<Longrightarrow> c n = Some (a, b) \<or> (p \<le> a \<and> a \<le> b \<and> b \<le> p1)"
    "\<And>n. c n \<noteq> None \<Longrightarrow> c1 n \<noteq> None"
    unfolding x y mstate_step_def by auto
  from assms(2) have yz: "p2 + length s2 = p1 + length s1" "p1 \<le> p2"
    "\<And>n a b. c2 n = Some (a, b) \<Longrightarrow> c1 n = Some (a, b) \<or> (p1 \<le> a \<and> a \<le> b \<and> b \<le> p2)"
    "\<And>n. c1 n \<noteq> None \<Longrightarrow> c2 n \<noteq> None"
    unfolding y z mstate_step_def by auto
  have "c n = Some (a, b) \<or> (p \<le> a \<and> a \<le> b \<and> b \<le> p2)" if "c2 n = Some (a, b)" for n a b
    using yz(3)[OF that] xy(3)[of n a b] xy(2) yz(2) by auto
  moreover have "c2 n \<noteq> None" if "c n \<noteq> None" for n
    using xy(4)[OF that] yz(4) by blast
  ultimately show ?thesis
    unfolding x z mstate_step_def using xy(1,2) yz(1,2) by auto
qed

lemma backtrack_step: "st' \<in> set (backtrack r st) \<Longrightarrow> mstate_step st st'"
proof (induction r st arbitrary: st' rule: backtrack.induct)
  case (1 P p s c)
  then show ?case by (auto simp: mstate_step_def split: list.splits if_splits)
next
  case (2 a b st)
  from 2(3) obtain st1 where a: "st1 \<in> set (backtrack a st)"
    and b: "st' \<in> set (backtrack b st1)" by auto
  from 2(1)[OF a] 2(2)[OF a b] show ?case by (rule mstate_step_trans)
next
  case (3 a b st)
  from 3(3) have "st' \<in> set (backtrack a st) \<or> st' \<in> set (backtrack b st)" by simp
  with 3(1,2) show ?case by blast
next
  case (4 a p s c)
  from 4(3) consider "st' = (p, s, c)"
    | p1 s1 c1 where "(p1, s1, c1) \<in> set (backtrack a (p, s, c))" "length s1 < length s"
        "st' \<in> set (backtrack (Star a) (p1, s1, c1))"
    by (subst (asm) backtrack.simps(4)) (auto split: if_splits)
  then show ?case
  proof cases
    case 1
    then show ?thesis by (simp add: mstate_step_refl)
  next
    case 2
    from 4(1)[OF 2(1)] 4(2)[OF 2(1) refl refl 2(2) 2(3)] show ?thesis
      by (rule mstate_step_trans)
  qed
next
  case (5 a st)
  from 5(2) have "st' \<in> set (backtrack a st) \<or> st' = st" by auto
  with 5(1) mstate_step_refl show ?case by blast
next
  case (6 n a p s c)
  from 6(2) obtain p1 s1 c1 where m: "(p1, s1, c1) \<in> set (backtrack a (p, s, c))"
    and st': "st' = (p1, s1, c1(n \<mapsto> (p, p1)))"
    by auto
  from 6(1)[OF m] show ?case
    unfolding st' mstate_step_def by (auto split: prod.splits)
next
  case (7 p s c)
  then show ?case by (auto simp: mstate_step_refl split: if_splits)
qed

lemma backtrack_sure_groups:
  "(p', s', c') \<in> set (backtrack r st) \<Longrightarrow> n \<in> sure_groups r \<Longrightarrow> c' n \<noteq> None"
proof (induction r arbitrary: st p' s' c')
  case (Seq a b)
  from Seq(3) obtain st1 where a: "st1 \<in> set (backtrack a st)"
    and b: "(p', s', c') \<in> set (backtrack b st1)" by auto
  obtain p1 s1 c1 where st1: "st1 = (p1, s1, c1)" by (cases st1)
  show ?case
  proof (cases "n \<in> sure_groups b")
    case True
    with Seq(2)[OF b] show ?thesis by simp
  next
    case False
    with Seq(4) have "n \<in> sure_groups a" by simp
    with Seq(1)[OF a[unfolded st1]] have "c1 n \<noteq> None" by simp
    with backtrack_step[OF b] show ?thesis
      unfolding st1 mstate_step_def by auto
  qed
next
  case (Capture m a)
  obtain p s c where st: "st = (p, s, c)" by (cases st)
  from Capture(2) obtain p1 s1 c1 where m: "(p1, s1, c1) \<in> set (backtrack a (p, s, c))"
    and st': "(p', s', c') = (p1, s1, c1(m \<mapsto> (p, p1)))"
    unfolding st by auto
  with Capture(1)[OF m] Capture(3) show ?case by auto
qed simp_all

lemma sure_groups_logMessageRE: "sure_groups (Capture 0 logMessageRE) = {0, 1, 2, 3}"
  by (auto simp: logMessageRE_def)

lemma FindStringSubmatchIndex_logMessageRE:
  "\<exists>a0 b0 a1 b1 a2 b2 a3 b3.
     FindStringSubmatchIndex logMessageRE 3 s =
       Some [int a0, int b0, int a1, int b1, int a2, int b2, int a3, int b3] \<and>
     a1 \<le> b1 \<and> b1 \<le> length s \<and> a2 \<le> b2 \<and> b2 \<le> length s \<and> a3 \<le> b3 \<and> b3 \<le> length s"
proof -
  let ?all = "concat (map (\<lambda>p. backtrack (Capture 0 logMessageRE) (p, drop p s, Map.empty))
                     [0..<length s + 1])"
  have "backtrack (Capture 0 logMessageRE) (0, drop 0 s, Map.empty) \<noteq> []"
    using backtrack_logMessageRE_nonempty by simp
  moreover have "0 \<in> set [0..<length s + 1]" by simp
  ultimately have "?all \<noteq> []"
    unfolding concat_eq_Nil_conv by (metis (no_types, lifting) imageI set_map)
  then obtain st rest where all: "?all = st # rest" by (cases ?all) auto
  obtain p' s' c' where st: "st = (p', s', c')" by (cases st)
  have "st \<in> set ?all" using all by simp
  then have "\<exists>p \<in> set [0..<length s + 1].
      st \<in> set (backtrack (Capture 0 logMessageRE) (p, drop p s, Map.empty))"
    by (simp only: set_concat set_map) blast
  then obtain p where pm: "p \<in> set [0..<length s + 1]"
    and m0: "st \<in> set (backtrack (Capture 0 logMessageRE) (p, drop p s, Map.empty))"
    by blast
  from pm have p: "p \<le> length s" by auto
  note m = m0[unfolded st]
  from backtrack_step[OF m] p have bound: "p' \<le> length s"
    and caps: "\<And>n a b. c' n = Some (a, b) \<Longrightarrow> a \<le> b \<and> b \<le> p'"
    unfolding mstate_step_def by auto
  have set: "c' n \<noteq> None" if "n \<in> {0, 1, 2, 3}" for n
    using backtrack_sure_groups[OF m] that sure_groups_logMessageRE by blast
  obtain a0 b0 where c0: "c' 0 = Some (a0, b0)" using set[of 0] by auto
  obtain a1 b1 where c1: "c' (Suc 0) = Some (a1, b1)" using set[of 1] by auto
  obtain a2 b2 where c2: "c' 2 = Some (a2, b2)" using set[of 2] by auto
  obtain a3 b3 where c3: "c' 3 = Some (a3, b3)" using set[of 3] by auto
  have up: "[0..<4] = [0, 1, 2, 3::nat]" by code_simp
  have "FindStringSubmatchIndex logMessageRE 3 s =
      Some [int a0, int b0, int a1, int b1, int a2, int b2, int a3, int b3]"
    unfolding FindStringSubmatchIndex_def all st
    by (simp add: submatchIndex_def up c0 c1 c2 c3)
  moreover have "a1 \<le> b1 \<and> b1 \<le> length s \<and> a2 \<le> b2 \<and> b2 \<le> length s \<and> a3 \<le> b3 \<and> b3 \<le> length s"
    using caps[OF c1] caps[OF c2] caps[OF c3] bound by linarith
  ultimately show ?thesis by blast
qed

lemma traceRowOf_succeeds: "\<exists>row. traceRowOf lrr = Inr row"
proof -
  obtain a0 b0 a1 b1 a2 b2 a3 b3 where
    f: "FindStringSubmatchIndex logMessageRE 3 (msg lrr) =
       Some [int a0, int b0, int a1, int b1, int a2, int b2, int a3, int b3]"
    and b: "a1 \<le> b1" "b1 \<le> length (msg lrr)" "a2 \<le> b2" "b2 \<le> length (msg lrr)"
      "a3 \<le> b3" "b3 \<le> length (msg lrr)"
    using FindStringSubmatchIndex_logMessageRE[of "msg lrr"] by blast
  have s1: "\<exists>x. slice_expr (msg lrr) (int a1) (int b1) = Inr x"
    and s2: "\<exists>x. slice_expr (msg lrr) (int a2) (int b2) = Inr x"
    and s3: "\<exists>x. slice_expr (msg lrr) (int a3) (int b3) = Inr x"
    using b by (simp_all add: slice_expr_def)
  then obtain x1 x2 x3 where
    "slice_expr (msg lrr) (int a1) (int b1) = Inr x1"
    "slice_expr (msg lrr) (int a2) (int b2) = Inr x2"
    "slice_expr (msg lrr) (int a3) (int b3) = Inr x3"
    by blast
  note sl = this
  have n: "[int a0, int b0, int a1, int b1, int a2, int b2, int a3, int b3] ! 2 = int a1"
    "[int a0, int b0, int a1, int b1, int a2, int b2, int a3, int b3] ! 3 = int b1"
    "[int a0, int b0, int a1, int b1, int a2, int b2, int a3, int b3] ! 4 = int a2"
    "[int a0, int b0, int a1, int b1, int a2, int b2, int a3, int b3] ! 5 = int b2"
    "[int a0, int b0, int a1, int b1, int a2, int b2, int a3, int b3] ! 6 = int a3"
    "[int a0, int b0, int a1, int b1, int a2, int b2, int a3, int b3] ! 7 = int b3"
    by simp_all
  show ?thesis
    unfolding traceRowOf_def Let_def f option.case n sl sum.case by blast
qed


lemma generateSessionTraceVTable_rows_succeeds:
  "\<exists>rows. generateSessionTraceVTable_rows allLogs res = Inr rows"
proof (induction allLogs arbitrary: res)
  case Nil
  then show ?case by simp
next
  case (Cons lrr allLogs)
  obtain row where "traceRowOf lrr = Inr row" using traceRowOf_succeeds by blast
  with Cons show ?case by simp
qed

text \<open>Induction over all calls, whatever they return.\<close>

lemma getMessagesForSubtrace_induct_clean:
  assumes get: "\<And>sp seen.
      (SpanID (recordedSpan sp) \<notin> seen \<Longrightarrow>
         Q sp 0 0 (insert (SpanID (recordedSpan sp)) seen) [spanStartRow sp]) \<Longrightarrow> P sp seen"
    and loop: "\<And>sp i j seen acc.
      \<lbrakk>\<lbrakk>i < length (Logs (recordedSpan sp)); logBeforeChild sp allSpans i j\<rbrakk>
         \<Longrightarrow> Q sp (i + 1) j seen (acc @ [logRow sp i]);
       \<lbrakk>j < length (childSpansOf sp allSpans); \<not> logBeforeChild sp allSpans i j\<rbrakk>
         \<Longrightarrow> P (childSpansOf sp allSpans ! j) seen;
       \<And>msgs seen1. \<lbrakk>j < length (childSpansOf sp allSpans); \<not> logBeforeChild sp allSpans i j;
          getMessagesForSubtrace (childSpansOf sp allSpans ! j) allSpans seen = Inr (msgs, seen1)\<rbrakk>
         \<Longrightarrow> Q sp i (j + 1) seen1 (acc @ msgs)\<rbrakk>
      \<Longrightarrow> Q sp i j seen acc"
  shows "P sp seen" and "Q sp i j seen acc"
proof -
  have "allSpans' = allSpans \<longrightarrow> P sp seen"
    and "allSpans' = allSpans \<longrightarrow> Q sp i j seen acc" for allSpans'
  proof (induction sp allSpans' seen and sp allSpans' i j seen acc
      rule: getMessagesForSubtrace_getMessagesForSubtrace_loop.induct)
    case (1 sp allSpans' seenSpans)
    show ?case
    proof
      assume a: "allSpans' = allSpans"
      show "P sp seenSpans"
        by (rule get) (use 1 a in \<open>simp add: spanStartRow_def\<close>)
    qed
  next
    case (2 sp allSpans' i j seenSpans allLogs)
    show ?case
    proof
      assume a: "allSpans' = allSpans"
      note ih1 = 2(1)[OF refl refl _ refl refl, unfolded a]
      note ih2 = 2(2)[OF refl refl _ refl refl, unfolded a]
      note ih3 = 2(3)[OF refl refl _ refl refl, unfolded a]
      show "Q sp i j seenSpans allLogs"
      proof (rule loop)
        assume il: "i < length (Logs (recordedSpan sp))" and lb: "logBeforeChild sp allSpans i j"
        from ih1[OF _ lb[unfolded logBeforeChild_def childSpansOf_def] il] il
        show "Q sp (i + 1) j seenSpans (allLogs @ [logRow sp i])"
          by (simp add: logRow_def)
      next
        assume jl: "j < length (childSpansOf sp allSpans)" and nl: "\<not> logBeforeChild sp allSpans i j"
        from ih2[OF _ nl[unfolded logBeforeChild_def childSpansOf_def] jl[unfolded childSpansOf_def]] jl
        show "P (childSpansOf sp allSpans ! j) seenSpans"
          by (simp add: childSpansOf_def)
      next
        fix msgs seen1
        assume jl: "j < length (childSpansOf sp allSpans)" and nl: "\<not> logBeforeChild sp allSpans i j"
          and g: "getMessagesForSubtrace (childSpansOf sp allSpans ! j) allSpans seenSpans = Inr (msgs, seen1)"
        from ih3[OF _ nl[unfolded logBeforeChild_def childSpansOf_def] jl[unfolded childSpansOf_def]
            g[unfolded childSpansOf_def] refl] jl
        show "Q sp i (j + 1) seen1 (allLogs @ msgs)"
          by (simp add: childSpansOf_def)
      qed
    qed
  qed
  then show "P sp seen" and "Q sp i j seen acc" by blast+
qed

text \<open>The failures of the first loop: a duplicate span, or an index out of range.\<close>

definition reducer_error :: "error \<Rightarrow> bool" where
  "reducer_error e \<longleftrightarrow> e = IndexOutOfRange \<or> (\<exists>w. e = DuplicateSpan w)"

lemma getMessagesForSubtrace_errors:
  "\<forall>e. getMessagesForSubtrace sp allSpans seen = Inl e \<longrightarrow> reducer_error e"
  "\<forall>e. getMessagesForSubtrace_loop sp allSpans i j seen acc = Inl e \<longrightarrow> reducer_error e"
proof (induction rule: getMessagesForSubtrace_induct_clean[where allSpans = allSpans])
  case (1 sp seen)
  then show ?case
    by (auto simp: getMessagesForSubtrace_eq reducer_error_def)
next
  case (2 sp i j seen acc)
  show ?case
  proof (intro allI impI)
    fix e
    assume e: "getMessagesForSubtrace_loop sp allSpans i j seen acc = Inl e"
    show "reducer_error e"
      using e 2
      by (subst (asm) getMessagesForSubtrace_loop_eq)
         (auto simp: reducer_error_def split: if_splits sum.splits prod.splits)
  qed
qed

lemma generateSessionTraceVTable_logs_errors:
  "generateSessionTraceVTable_logs spans spanIdx seen acc = Inl e \<Longrightarrow> reducer_error e"
proof (induction spans spanIdx seen acc rule: generateSessionTraceVTable_logs.induct)
  case (1 spans spanIdx seenSpans allLogs)
  note eq = generateSessionTraceVTable_logs.simps[of spans spanIdx seenSpans allLogs]
  show ?case
  proof (cases "spanIdx < length spans")
    case False
    with 1(3) eq show ?thesis by simp
  next
    case lt: True
    show ?thesis
    proof (cases "SpanID (spans ! spanIdx) \<in> seenSpans")
      case True
      with 1(3) eq lt 1(1)[OF lt True] show ?thesis by simp
    next
      case ns: False
      show ?thesis
      proof (cases "getMessagesForSubtrace \<lparr>recordedSpan = spans ! spanIdx, index = spanIdx\<rparr>
                      spans seenSpans")
        case (Inl e')
        with 1(3) eq lt ns have "e' = e" by simp
        with Inl getMessagesForSubtrace_errors(1) show ?thesis by blast
      next
        case (Inr b)
        obtain msgs seen' where b: "b = (msgs, seen')" by (cases b)
        from 1(3) eq lt ns Inr b 1(2)[OF lt ns Inr b[symmetric]] show ?thesis by simp
      qed
    qed
  qed
qed

text \<open>
  C9. \<open>logMessageRE\<close> matches every string, with its three groups set to positions
  inside the string, so every log message becomes a row: the reduction never returns the
  error "unable to split trace message" and never panics in a slice expression.
\<close>

theorem logMessageRE_matches_every_string:
  "(\<exists>loc. FindStringSubmatchIndex logMessageRE 3 m = Some loc) \<and>
   (\<exists>row. traceRowOf lrr = Inr row) \<and>
   generateSessionTraceVTable spans \<noteq> Inl (UnableToSplit m') \<and>
   generateSessionTraceVTable spans \<noteq> Inl SliceOutOfRange"
proof -
  have "reducer_error e" if "generateSessionTraceVTable spans = Inl e" for e
  proof (cases "generateSessionTraceVTable_logs spans 0 {} []")
    case (Inl e')
    with that generateSessionTraceVTable_logs_errors[OF Inl] show ?thesis
      by (simp add: generateSessionTraceVTable_def)
  next
    case (Inr allLogs)
    with that generateSessionTraceVTable_rows_succeeds[of allLogs "[]"] show ?thesis
      by (auto simp: generateSessionTraceVTable_def)
  qed
  then have "generateSessionTraceVTable spans \<noteq> Inl (UnableToSplit m')"
    and "generateSessionTraceVTable spans \<noteq> Inl SliceOutOfRange"
    by (auto simp: reducer_error_def)
  with FindStringSubmatchIndex_logMessageRE[of m] traceRowOf_succeeds[of lrr]
  show ?thesis by blast
qed

section \<open>Session tracing\<close>

text \<open>
  The tracing package is a collaborator: a span is a handle, the state of the tracer is
  of an arbitrary type, and its operations are parameters.
\<close>

type_synonym Span = nat

type_synonym RecordingType = int

record 't tracing =
  GetRecording :: "'t \<Rightarrow> Span \<Rightarrow> RecordedSpan list"
  StartRecording :: "Span \<Rightarrow> RecordingType \<Rightarrow> 't \<Rightarrow> 't"
  StopRecording :: "Span \<Rightarrow> 't \<Rightarrow> 't"
  StartSpan :: "string \<Rightarrow> Span option \<Rightarrow> 't \<Rightarrow> Span \<times> 't"
  Finish :: "Span \<Rightarrow> 't \<Rightarrow> 't"

text \<open>
  What \<open>SessionTracing\<close> reads and writes of its \<open>connExecutor\<close>: whether the state
  machine is in \<open>stateNoTxn\<close>, the span of the transaction's context, the span of the
  connection's context, and the span of the context that hijacks the connection's.
\<close>

record connExecutor =
  curStateNoTxn :: bool
  stateCtxSpan :: "Span option"
  connCtxSpan :: "Span option"
  hijacked :: "Span option"

record SessionTracing =
  enabled :: bool
  kvTracingEnabled :: bool
  recordingType :: RecordingType
  firstTxnSpan :: "Span option"
  connSpan :: "Span option"
  lastRecording :: "traceRow list"

record 't world =
  st :: SessionTracing
  ex :: connExecutor
  tracer :: 't

definition getRecording :: "'t tracing \<Rightarrow> 't world \<Rightarrow> error + traceRow list" where
  "getRecording tr w =
     (if \<not> enabled (st w) then Inr (lastRecording (st w))
      else
        (let spans = (case firstTxnSpan (st w) of
                        None \<Rightarrow> []
                      | Some f \<Rightarrow> GetRecording tr (tracer w) f)
         in case connSpan (st w) of
              None \<Rightarrow> Inl NilPointerDereference
            | Some c \<Rightarrow> generateSessionTraceVTable (spans @ GetRecording tr (tracer w) c)))"

definition StartTracing ::
    "'t tracing \<Rightarrow> RecordingType \<Rightarrow> bool \<Rightarrow> 't world \<Rightarrow> error option \<times> 't world" where
  "StartTracing tr recType kvTracing w =
     (if enabled (st w) then (None, w)
      else
        (case (if \<not> curStateNoTxn (ex w) then
                 (case stateCtxSpan (ex w) of
                    None \<Rightarrow> Inl NoTxnSpanForSessionTracing
                  | Some sp \<Rightarrow>
                      Inr (w\<lparr>st := (st w)\<lparr>firstTxnSpan := Some sp\<rparr>,
                             tracer := StartRecording tr sp recType (tracer w)\<rparr>))
               else Inr w) of
           Inl err \<Rightarrow> (Some err, w)
         | Inr w1 \<Rightarrow>
             (let st1 = (st w1)\<lparr>enabled := True, kvTracingEnabled := kvTracing,
                                recordingType := recType\<rparr>;
                  (sp, t2) = StartSpan tr ''session recording'' (connCtxSpan (ex w1)) (tracer w1);
                  t3 = StartRecording tr sp recType t2
              in (None, w1\<lparr>st := st1\<lparr>connSpan := Some sp\<rparr>,
                           ex := (ex w1)\<lparr>hijacked := Some sp\<rparr>,
                           tracer := t3\<rparr>))))"

text \<open>
  A panic unwinds the call: when the reduction panics inside \<open>StopTracing\<close>, the
  assignment to \<open>lastRecording\<close> does not take place; when it returns an error, the
  assignment stores the nil result.
\<close>

definition is_panic :: "error \<Rightarrow> bool" where
  "is_panic err \<longleftrightarrow>
     err = IndexOutOfRange \<or> err = SliceOutOfRange \<or> err = NilPointerDereference"

definition StopTracing :: "'t tracing \<Rightarrow> 't world \<Rightarrow> error option \<times> 't world" where
  "StopTracing tr w =
     (if \<not> enabled (st w) then (None, w)
      else
        (let st1 = (st w)\<lparr>enabled := False\<rparr>;
             (spans1, t1) =
               (case firstTxnSpan st1 of
                  None \<Rightarrow> ([], tracer w)
                | Some f \<Rightarrow> (GetRecording tr (tracer w) f, StopRecording tr f (tracer w)))
         in case connSpan st1 of
              None \<Rightarrow> (Some NilPointerDereference, w\<lparr>st := st1, tracer := t1\<rparr>)
            | Some c \<Rightarrow>
                (let t2 = Finish tr c t1;
                     spans = spans1 @ GetRecording tr t2 c;
                     t3 = StopRecording tr c t2;
                     ex1 = (ex w)\<lparr>hijacked := None\<rparr>
                 in case generateSessionTraceVTable spans of
                      Inl err \<Rightarrow>
                        (Some err,
                         w\<lparr>st := (if is_panic err then st1 else st1\<lparr>lastRecording := []\<rparr>),
                           ex := ex1, tracer := t3\<rparr>)
                    | Inr rows \<Rightarrow>
                        (None, w\<lparr>st := st1\<lparr>lastRecording := rows\<rparr>, ex := ex1, tracer := t3\<rparr>))))"

lemma StartTracing_enabled:
  "StartTracing tr recType kvTracing w = (None, w1) \<Longrightarrow> enabled (st w1)"
  by (auto simp: StartTracing_def Let_def split: if_splits sum.splits option.splits prod.splits)

text \<open>
  C6. \<open>StartTracing\<close> while tracing is enabled returns \<open>nil\<close> and leaves the whole
  state as it is, whatever its arguments; in particular a second \<open>StartTracing\<close> after
  one that returned \<open>nil\<close> changes nothing. \<open>StopTracing\<close> while tracing is not
  enabled returns \<open>nil\<close> and changes nothing.
\<close>

theorem tracing_toggle_twice_noop:
  "(enabled (st w) \<longrightarrow> StartTracing tr recType kvTracing w = (None, w)) \<and>
   (StartTracing tr recType1 kvTracing1 w = (None, w1) \<longrightarrow>
      StartTracing tr recType2 kvTracing2 w1 = (None, w1)) \<and>
   (\<not> enabled (st w) \<longrightarrow> StopTracing tr w = (None, w))"
  using StartTracing_enabled[of tr recType1 kvTracing1 w w1]
  by (simp add: StartTracing_def StopTracing_def)

lemma StopTracing_firstTxnSpan:
  "firstTxnSpan (st (snd (StopTracing tr w))) = firstTxnSpan (st w)"
  by (simp add: StopTracing_def Let_def split: option.splits sum.splits prod.splits)

lemma StartTracing_in_txn:
  assumes "\<not> enabled (st w)" "\<not> curStateNoTxn (ex w)" "stateCtxSpan (ex w) = Some sp"
  shows "fst (StartTracing tr recType kvTracing w) = None"
    and "firstTxnSpan (st (snd (StartTracing tr recType kvTracing w))) = Some sp"
    and "enabled (st (snd (StartTracing tr recType kvTracing w)))"
  using assms by (simp_all add: StartTracing_def Let_def split: prod.splits)

lemma StartTracing_no_txn:
  assumes "\<not> enabled (st w)" "curStateNoTxn (ex w)"
  shows "fst (StartTracing tr recType kvTracing w) = None"
    and "firstTxnSpan (st (snd (StartTracing tr recType kvTracing w))) = firstTxnSpan (st w)"
    and "enabled (st (snd (StartTracing tr recType kvTracing w)))"
    and "connSpan (st (snd (StartTracing tr recType kvTracing w))) =
           Some (fst (StartSpan tr ''session recording'' (connCtxSpan (ex w)) (tracer w)))"
  using assms by (simp_all add: StartTracing_def Let_def split: prod.splits)

lemma StopTracing_disables:
  "enabled (st w) \<Longrightarrow> \<not> enabled (st (snd (StopTracing tr w)))"
  by (simp add: StopTracing_def Let_def split: option.splits sum.splits prod.splits)

text \<open>
  C10. \<open>StopTracing\<close> does not clear \<open>firstTxnSpan\<close>. When tracing is started inside
  a transaction whose span is \<open>sp\<close>, stopped, and started again outside any transaction
  (the session tracing state being what \<open>StopTracing\<close> left), \<open>firstTxnSpan\<close> is
  still \<open>sp\<close>, and both \<open>getRecording\<close> and the next \<open>StopTracing\<close> reduce the
  recording that the tracer returns for \<open>sp\<close> followed by that of the new connection
  span.
\<close>

theorem stale_firstTxnSpan_collected:
  assumes "\<not> enabled (st w0)" and "\<not> curStateNoTxn (ex w0)" and "stateCtxSpan (ex w0) = Some sp"
    and "StartTracing tr recType kvTracing w0 = (e1, w1)"
    and "StopTracing tr w1 = (e2, w2)"
    and "st w2' = st w2" and "curStateNoTxn (ex w2')"
    and "StartTracing tr recType' kvTracing' w2' = (e3, w3)"
  shows "firstTxnSpan (st w2) = Some sp \<and> e3 = None \<and> enabled (st w3) \<and>
         firstTxnSpan (st w3) = Some sp \<and>
         (\<exists>c. connSpan (st w3) = Some c \<and>
              getRecording tr w3 =
                generateSessionTraceVTable
                  (GetRecording tr (tracer w3) sp @ GetRecording tr (tracer w3) c) \<and>
              lastRecording (st (snd (StopTracing tr w3))) =
                (case generateSessionTraceVTable
                        (GetRecording tr (tracer w3) sp @
                         GetRecording tr (Finish tr c (StopRecording tr sp (tracer w3))) c) of
                   Inl err \<Rightarrow> (if is_panic err then lastRecording (st w3) else [])
                 | Inr rows \<Rightarrow> rows))"
proof -
  from StartTracing_in_txn[OF assms(1-3), of tr recType kvTracing] assms(4)
  have w1: "firstTxnSpan (st w1) = Some sp" "enabled (st w1)" by simp_all
  from StopTracing_firstTxnSpan[of tr w1] StopTracing_disables[OF w1(2), of tr] assms(5) w1
  have w2: "firstTxnSpan (st w2) = Some sp" "\<not> enabled (st w2)" by simp_all
  from w2 assms(6) have w2': "firstTxnSpan (st w2') = Some sp" "\<not> enabled (st w2')" by simp_all
  from StartTracing_no_txn[OF w2'(2) assms(7), of tr recType' kvTracing'] assms(8) w2'
  have w3: "e3 = None" "firstTxnSpan (st w3) = Some sp" "enabled (st w3)"
    "\<exists>c. connSpan (st w3) = Some c" by simp_all
  from w3(4) obtain c where c: "connSpan (st w3) = Some c" by blast
  have g: "getRecording tr w3 =
      generateSessionTraceVTable (GetRecording tr (tracer w3) sp @ GetRecording tr (tracer w3) c)"
    using w3 c by (simp add: getRecording_def)
  have s: "lastRecording (st (snd (StopTracing tr w3))) =
      (case generateSessionTraceVTable
              (GetRecording tr (tracer w3) sp @
               GetRecording tr (Finish tr c (StopRecording tr sp (tracer w3))) c) of
         Inl err \<Rightarrow> (if is_panic err then lastRecording (st w3) else [])
       | Inr rows \<Rightarrow> rows)"
    using w3 c by (simp add: StopTracing_def Let_def split: sum.splits)
  from w2 w3 c g s show ?thesis by simp
qed

text \<open>
  A tracer for the examples: its state counts the spans started, a new span takes the
  counter as its handle, and the recording of a span is one recorded span named after
  the handle.
\<close>

definition example_tracing :: "nat tracing" where
  "example_tracing =
     \<lparr>GetRecording = (\<lambda>t sp. [\<lparr>SpanID = of_nat sp, ParentSpanID = 0, Operation = ''s'',
                                  StartTime = int sp, Duration = 0, Logs = []\<rparr>]),
      StartRecording = (\<lambda>sp recType t. t),
      StopRecording = (\<lambda>sp t. t),
      StartSpan = (\<lambda>opName parent t. (t, t + 1)),
      Finish = (\<lambda>sp t. t)\<rparr>"

definition example_world :: "nat world" where
  "example_world =
     \<lparr>st = \<lparr>enabled = False, kvTracingEnabled = False, recordingType = 0,
             firstTxnSpan = None, connSpan = None, lastRecording = []\<rparr>,
      ex = \<lparr>curStateNoTxn = False, stateCtxSpan = Some 1, connCtxSpan = None, hijacked = None\<rparr>,
      tracer = 2\<rparr>"

definition example_world_stopped :: "nat world" where
  "example_world_stopped =
     (snd (StopTracing example_tracing (snd (StartTracing example_tracing 1 True example_world))))
       \<lparr>ex := \<lparr>curStateNoTxn = True, stateCtxSpan = None, connCtxSpan = None, hijacked = None\<rparr>\<rparr>"


theorem tracing_toggle_twice_noop_witness:
  "StartTracing example_tracing 2 False (snd (StartTracing example_tracing 1 True example_world)) =
     (None, snd (StartTracing example_tracing 1 True example_world)) \<and>
   StopTracing example_tracing example_world = (None, example_world)"
proof -
  have h1: "StartTracing example_tracing 1 True example_world =
      (None, snd (StartTracing example_tracing 1 True example_world))"
    by (simp add: StartTracing_def example_world_def example_tracing_def)
  have h2: "\<not> enabled (st example_world)"
    by (simp add: example_world_def)
  from tracing_toggle_twice_noop[of example_world example_tracing 0 False 1 True
      "snd (StartTracing example_tracing 1 True example_world)" 2 False] h1 h2
  show ?thesis by blast
qed

theorem stale_firstTxnSpan_collected_witness:
  "firstTxnSpan (st (snd (StartTracing example_tracing 2 False example_world_stopped))) = Some 1 \<and>
   getRecording example_tracing (snd (StartTracing example_tracing 2 False example_world_stopped)) =
     Inr [TraceRow (DInt 0) (DInt 0) (DTimestampTZ 1) DNull (DString ''s'')
            (DString []) (DString []) (DString ''=== SPAN START: s ===''),
          TraceRow (DInt 1) (DInt 0) (DTimestampTZ 3) DNull (DString ''s'')
            (DString []) (DString []) (DString ''=== SPAN START: s ==='')]"
proof -
  let ?w1 = "snd (StartTracing example_tracing 1 True example_world)"
  let ?w2 = "snd (StopTracing example_tracing ?w1)"
  let ?w3 = "snd (StartTracing example_tracing 2 False example_world_stopped)"
  have h1: "\<not> enabled (st example_world)" "\<not> curStateNoTxn (ex example_world)"
    "stateCtxSpan (ex example_world) = Some 1"
    by (simp_all add: example_world_def)
  have h4: "StartTracing example_tracing 1 True example_world =
      (fst (StartTracing example_tracing 1 True example_world), ?w1)" by simp
  have h5: "StopTracing example_tracing ?w1 = (fst (StopTracing example_tracing ?w1), ?w2)"
    by simp
  have h6: "st example_world_stopped = st ?w2" "curStateNoTxn (ex example_world_stopped)"
    by (simp_all add: example_world_stopped_def)
  have h8: "StartTracing example_tracing 2 False example_world_stopped =
      (fst (StartTracing example_tracing 2 False example_world_stopped), ?w3)" by simp
  have c: "connSpan (st ?w3) = Some 3"
    by code_simp
  have t: "tracer ?w3 = 4"
    by code_simp
  have g: "generateSessionTraceVTable
             (GetRecording example_tracing 4 1 @ GetRecording example_tracing 4 3) =
     Inr [TraceRow (DInt 0) (DInt 0) (DTimestampTZ 1) DNull (DString ''s'')
            (DString []) (DString []) (DString ''=== SPAN START: s ===''),
          TraceRow (DInt 1) (DInt 0) (DTimestampTZ 3) DNull (DString ''s'')
            (DString []) (DString []) (DString ''=== SPAN START: s ==='')]"
    by code_simp
  from stale_firstTxnSpan_collected[OF h1 h4 h5 h6 h8] c t g
  show ?thesis by auto
qed

section \<open>The session registry\<close>

type_synonym ClusterWideID = "128 word"

text \<open>
  A registered session, as the registry sees it through the interface
  \<open>registrySession\<close>: its user, and what its \<open>cancelQuery\<close> answers for a query
  identifier. The calls that cancel something are recorded as events.
\<close>

record registrySession =
  user :: string
  cancelQuery :: "ClusterWideID \<Rightarrow> bool"

datatype registry_event =
    CancelQueryCalled ClusterWideID ClusterWideID
  | CancelSessionCalled ClusterWideID

datatype cancel_error =
    QueryIDMalformed ClusterWideID string
  | QueryIDNotFound ClusterWideID
  | SessionIDNotFound ClusterWideID

definition RootUser :: string where
  "RootUser = ''root''"

text \<open>
  The store is a Go map; the list holds its entries in the order in which the \<open>range\<close>
  statement of the call visits them.
\<close>

type_synonym registry_store = "(ClusterWideID \<times> registrySession) list"

fun CancelQuery_loop ::
    "registry_store \<Rightarrow> ClusterWideID \<Rightarrow> string \<Rightarrow> registry_event list \<Rightarrow>
      (bool \<times> cancel_error option) \<times> registry_event list" where
  "CancelQuery_loop [] queryID username events =
     ((False, Some (QueryIDNotFound queryID)), events)"
| "CancelQuery_loop ((sid, session) # rest) queryID username events =
     (if \<not> (username = RootUser \<or> username = user session)
      then CancelQuery_loop rest queryID username events
      else if cancelQuery session queryID
      then ((True, None), events @ [CancelQueryCalled sid queryID])
      else CancelQuery_loop rest queryID username (events @ [CancelQueryCalled sid queryID]))"

text \<open>
  \<open>StringToClusterWideID\<close> is a parameter: it returns an identifier and an error, the
  error being \<open>None\<close> for \<open>nil\<close>.
\<close>

definition CancelQuery ::
    "(string \<Rightarrow> ClusterWideID \<times> string option) \<Rightarrow> registry_store \<Rightarrow> string \<Rightarrow> string \<Rightarrow>
      (bool \<times> cancel_error option) \<times> registry_event list" where
  "CancelQuery StringToClusterWideID store queryIDStr username =
     (case StringToClusterWideID queryIDStr of
        (queryID, Some err) \<Rightarrow> ((False, Some (QueryIDMalformed queryID err)), [])
      | (queryID, None) \<Rightarrow> CancelQuery_loop store queryID username [])"

fun CancelSession_loop ::
    "registry_store \<Rightarrow> ClusterWideID \<Rightarrow> string \<Rightarrow>
      (bool \<times> cancel_error option) \<times> registry_event list" where
  "CancelSession_loop [] sessionID username = ((False, Some (SessionIDNotFound sessionID)), [])"
| "CancelSession_loop ((sid, session) # rest) sessionID username =
     (if \<not> (username = RootUser \<or> username = user session)
      then CancelSession_loop rest sessionID username
      else if sid = sessionID
      then ((True, None), [CancelSessionCalled sid])
      else CancelSession_loop rest sessionID username)"

definition CancelSession ::
    "(8 word list \<Rightarrow> ClusterWideID) \<Rightarrow> registry_store \<Rightarrow> 8 word list \<Rightarrow> string \<Rightarrow>
      (bool \<times> cancel_error option) \<times> registry_event list" where
  "CancelSession BytesToClusterWideID store sessionIDBytes username =
     CancelSession_loop store (BytesToClusterWideID sessionIDBytes) username"

lemma CancelQuery_loop_not_found:
  "\<forall>(sid, s) \<in> set store. cancelQuery s queryID \<longrightarrow> username \<noteq> RootUser \<and> username \<noteq> user s \<Longrightarrow>
   fst (CancelQuery_loop store queryID username events) = (False, Some (QueryIDNotFound queryID))"
  by (induction store queryID username events rule: CancelQuery_loop.induct) auto

lemma CancelSession_loop_not_found:
  "\<forall>(sid, s) \<in> set store. sid = sessionID \<longrightarrow> username \<noteq> RootUser \<and> username \<noteq> user s \<Longrightarrow>
   CancelSession_loop store sessionID username = ((False, Some (SessionIDNotFound sessionID)), [])"
  by (induction store sessionID username rule: CancelSession_loop.induct) auto

text \<open>
  C4. When the requesting user is neither the superuser nor the owner of any session that
  holds the query (respectively of the session with the requested identifier),
  \<open>CancelQuery\<close> (respectively \<open>CancelSession\<close>) returns \<open>false\<close> and the
  not-found error for that identifier, which is exactly what it returns on a store in
  which no session holds the query (respectively has that identifier); and
  \<open>CancelSession\<close> cancels nothing.
\<close>

theorem cancel_unauthorized_as_absent:
  assumes "StringToClusterWideID queryIDStr = (queryID, None)"
    and "\<forall>(sid, s) \<in> set store. cancelQuery s queryID \<longrightarrow> username \<noteq> RootUser \<and> username \<noteq> user s"
    and "\<forall>(sid, s) \<in> set store'. \<not> cancelQuery s queryID"
    and "\<forall>(sid, s) \<in> set store. sid = BytesToClusterWideID sessionIDBytes \<longrightarrow>
           username \<noteq> RootUser \<and> username \<noteq> user s"
    and "BytesToClusterWideID sessionIDBytes \<notin> fst ` set store''"
  shows "fst (CancelQuery StringToClusterWideID store queryIDStr username) =
           (False, Some (QueryIDNotFound queryID)) \<and>
         fst (CancelQuery StringToClusterWideID store' queryIDStr username) =
           (False, Some (QueryIDNotFound queryID)) \<and>
         CancelSession BytesToClusterWideID store sessionIDBytes username =
           ((False, Some (SessionIDNotFound (BytesToClusterWideID sessionIDBytes))), []) \<and>
         CancelSession BytesToClusterWideID store'' sessionIDBytes username =
           ((False, Some (SessionIDNotFound (BytesToClusterWideID sessionIDBytes))), [])"
proof -
  from assms(3) have a3: "\<forall>(sid, s) \<in> set store'. cancelQuery s queryID \<longrightarrow>
      username \<noteq> RootUser \<and> username \<noteq> user s" by auto
  from assms(5) have a5: "\<forall>(sid, s) \<in> set store''. sid = BytesToClusterWideID sessionIDBytes \<longrightarrow>
      username \<noteq> RootUser \<and> username \<noteq> user s" by force
  show ?thesis
    using CancelQuery_loop_not_found[OF assms(2), of "[]"] CancelQuery_loop_not_found[OF a3, of "[]"]
      CancelSession_loop_not_found[OF assms(4)] CancelSession_loop_not_found[OF a5]
    by (simp add: CancelQuery_def CancelSession_def assms(1))
qed

definition example_store :: registry_store where
  "example_store =
     [(1, \<lparr>user = ''alice'', cancelQuery = (\<lambda>q. q = 11)\<rparr>),
      (2, \<lparr>user = ''bob'', cancelQuery = (\<lambda>q. q = 22)\<rparr>)]"

theorem cancel_unauthorized_as_absent_witness:
  "fst (CancelQuery (\<lambda>s. (22, None)) example_store ''22'' ''alice'') =
     (False, Some (QueryIDNotFound 22)) \<and>
   fst (CancelQuery (\<lambda>s. (22, None)) (take 1 example_store) ''22'' ''alice'') =
     (False, Some (QueryIDNotFound 22)) \<and>
   CancelSession (\<lambda>b. 2) example_store [2] ''alice'' = ((False, Some (SessionIDNotFound 2)), []) \<and>
   CancelSession (\<lambda>b. 2) (take 1 example_store) [2] ''alice'' =
     ((False, Some (SessionIDNotFound 2)), [])"
proof -
  have h1: "(\<lambda>s. (22, None)) ''22'' = (22 :: ClusterWideID, None :: string option)"
    by simp
  have h2: "\<forall>(sid, s) \<in> set example_store. cancelQuery s 22 \<longrightarrow>
               ''alice'' \<noteq> RootUser \<and> ''alice'' \<noteq> user s"
    by (simp add: example_store_def RootUser_def)
  have h3: "\<forall>(sid, s) \<in> set (take 1 example_store). \<not> cancelQuery s 22"
    by (simp add: example_store_def)
  have h4: "\<forall>(sid, s) \<in> set example_store. sid = (\<lambda>b. 2) [2 :: 8 word] \<longrightarrow>
               ''alice'' \<noteq> RootUser \<and> ''alice'' \<noteq> user s"
    by (simp add: example_store_def RootUser_def)
  have h5: "(\<lambda>b. 2) [2 :: 8 word] \<notin> fst ` set (take 1 example_store)"
    by (simp add: example_store_def)
  from cancel_unauthorized_as_absent[of "\<lambda>s. (22, None)" "''22''" 22 example_store "''alice''"
      "take 1 example_store" "\<lambda>b. 2" "[2]" "take 1 example_store", OF h1 h2 h3 h4 h5]
  show ?thesis by simp
qed

section \<open>Queued schema changes\<close>

datatype sc_error = ErrDescriptorNotFound | SchemaChangeError string

text \<open>
  A schema changer is what its \<open>exec\<close> returns at each call: \<open>None\<close> for \<open>nil\<close>.
\<close>

type_synonym SchemaChanger = "nat \<Rightarrow> sc_error option"

record schemaChangerCollection =
  schemaChangers :: "SchemaChanger list"

text \<open>
  The retry loop of one job. \<open>retry.Start(base.DefaultRetryOptions())\<close> sets no limit on
  the number of attempts, so the loop ends only when \<open>exec\<close> returns something other
  than a retryable error; not returning is the value \<open>None\<close>. The result is the new
  value of \<open>firstError\<close> and the number of calls of \<open>exec\<close>.
\<close>

partial_function (option) execSchemaChanges_retry ::
    "(sc_error \<Rightarrow> bool) \<Rightarrow> SchemaChanger \<Rightarrow> nat \<Rightarrow> sc_error option \<Rightarrow>
      (sc_error option \<times> nat) option" where
  "execSchemaChanges_retry isPermanentSchemaChangeError sc attempt firstError =
     (case sc attempt of
        None \<Rightarrow> Some (firstError, attempt + 1)
      | Some err \<Rightarrow>
          if err = ErrDescriptorNotFound then Some (firstError, attempt + 1)
          else if isPermanentSchemaChangeError err
          then Some (if firstError = None then Some err else firstError, attempt + 1)
          else execSchemaChanges_retry isPermanentSchemaChangeError sc (attempt + 1) firstError)"

fun execSchemaChanges_loop ::
    "(sc_error \<Rightarrow> bool) \<Rightarrow> SchemaChanger list \<Rightarrow> sc_error option \<Rightarrow> nat list \<Rightarrow>
      (sc_error option \<times> nat list) option" where
  "execSchemaChanges_loop isPermanentSchemaChangeError [] firstError calls =
     Some (firstError, calls)"
| "execSchemaChanges_loop isPermanentSchemaChangeError (sc # rest) firstError calls =
     (case execSchemaChanges_retry isPermanentSchemaChangeError sc 0 firstError of
        None \<Rightarrow> None
      | Some (firstError', n) \<Rightarrow>
          execSchemaChanges_loop isPermanentSchemaChangeError rest firstError' (calls @ [n]))"

text \<open>
  \<open>SyncFilter\<close> is the testing knob, which may change the queue; the result holds the
  collection after the call, the error returned, and the number of calls of \<open>exec\<close>
  for each job in queue order.
\<close>

definition execSchemaChanges ::
    "(sc_error \<Rightarrow> bool) \<Rightarrow> (SchemaChanger list \<Rightarrow> SchemaChanger list) option \<Rightarrow>
      schemaChangerCollection \<Rightarrow>
      (schemaChangerCollection \<times> sc_error option \<times> nat list) option" where
  "execSchemaChanges isPermanentSchemaChangeError SyncFilter scc =
     (let scc1 =
            (case SyncFilter of
               Some f \<Rightarrow>
                 if length (schemaChangers scc) > 0
                 then scc\<lparr>schemaChangers := f (schemaChangers scc)\<rparr> else scc
             | None \<Rightarrow> scc)
      in case execSchemaChanges_loop isPermanentSchemaChangeError (schemaChangers scc1) None [] of
           None \<Rightarrow> None
         | Some (firstError, calls) \<Rightarrow> Some (scc1\<lparr>schemaChangers := []\<rparr>, firstError, calls))"

text \<open>
  An outcome of \<open>exec\<close> is retryable when it is an error other than the missing
  descriptor that is not classified permanent, and permanent when it is such an error
  that is classified permanent. \<open>firstPermanentError\<close> is the first permanent outcome
  of a list of outcomes.
\<close>

definition retryable :: "(sc_error \<Rightarrow> bool) \<Rightarrow> sc_error option \<Rightarrow> bool" where
  "retryable isPermanent r =
     (case r of None \<Rightarrow> False | Some err \<Rightarrow> err \<noteq> ErrDescriptorNotFound \<and> \<not> isPermanent err)"

definition permanent :: "(sc_error \<Rightarrow> bool) \<Rightarrow> sc_error option \<Rightarrow> bool" where
  "permanent isPermanent r =
     (case r of None \<Rightarrow> False | Some err \<Rightarrow> err \<noteq> ErrDescriptorNotFound \<and> isPermanent err)"

definition firstPermanentError :: "(sc_error \<Rightarrow> bool) \<Rightarrow> sc_error option list \<Rightarrow> sc_error option" where
  "firstPermanentError isPermanent rs =
     (case filter (permanent isPermanent) rs of [] \<Rightarrow> None | r # _ \<Rightarrow> r)"

lemma execSchemaChanges_retry_terminal:
  assumes "\<not> retryable isP (sc k)" and "\<forall>k' < k. a \<le> k' \<longrightarrow> retryable isP (sc k')" and "a \<le> k"
  shows "execSchemaChanges_retry isP sc a fe =
           Some (if permanent isP (sc k) \<and> fe = None then sc k else fe, Suc k)"
  using assms
proof (induction "k - a" arbitrary: a)
  case 0
  then have "a = k" by simp
  with 0(2) show ?case
    by (subst execSchemaChanges_retry.simps)
       (auto simp: retryable_def permanent_def split: option.splits)
next
  case (Suc n)
  then have lt: "a < k" by simp
  with Suc(4) have r: "retryable isP (sc a)" by simp
  have "execSchemaChanges_retry isP sc a fe = execSchemaChanges_retry isP sc (a + 1) fe"
    using r by (subst execSchemaChanges_retry.simps)
      (auto simp: retryable_def split: option.splits)
  moreover have "execSchemaChanges_retry isP sc (a + 1) fe =
           Some (if permanent isP (sc k) \<and> fe = None then sc k else fe, Suc k)"
    using Suc(1)[of "a + 1"] Suc(2,3,4) lt by auto
  ultimately show ?case by simp
qed

lemma firstPermanentError_Cons:
  "firstPermanentError isP (r # rs) = (if permanent isP r then r else firstPermanentError isP rs)"
  by (simp add: firstPermanentError_def)

lemma execSchemaChanges_loop_result:
  assumes "length ks = length q"
    and "\<forall>i < length q. \<not> retryable isP ((q ! i) (ks ! i)) \<and> (\<forall>k < ks ! i. retryable isP ((q ! i) k))"
  shows "execSchemaChanges_loop isP q fe calls =
           Some (if fe = None then firstPermanentError isP (map (\<lambda>(sc, k). sc k) (zip q ks)) else fe,
                 calls @ map Suc ks)"
  using assms
proof (induction q arbitrary: ks fe calls)
  case Nil
  then show ?case by (simp add: firstPermanentError_def)
next
  case (Cons sc q)
  then obtain k ks' where ks: "ks = k # ks'" by (cases ks) auto
  from Cons(3) have hd: "\<not> retryable isP (sc k)" "\<forall>k' < k. retryable isP (sc k')"
    unfolding ks by force+
  from Cons(3) have tl: "\<forall>i < length q. \<not> retryable isP ((q ! i) (ks' ! i)) \<and>
      (\<forall>k < ks' ! i. retryable isP ((q ! i) k))"
    unfolding ks by force
  have r: "execSchemaChanges_retry isP sc 0 fe =
      Some (if permanent isP (sc k) \<and> fe = None then sc k else fe, Suc k)"
    by (rule execSchemaChanges_retry_terminal) (use hd in auto)
  have len: "length ks' = length q" using Cons(2) ks by simp
  have p: "permanent isP (sc k) \<Longrightarrow> sc k \<noteq> None"
    by (auto simp: permanent_def split: option.splits)
  have np: "\<not> permanent isP None"
    by (simp add: permanent_def)
  let ?fe = "if permanent isP (sc k) \<and> fe = None then sc k else fe"
  have "execSchemaChanges_loop isP (sc # q) fe calls =
      execSchemaChanges_loop isP q ?fe (calls @ [Suc k])"
    by (simp add: r)
  also have "\<dots> = Some (if ?fe = None then firstPermanentError isP (map (\<lambda>(sc, k). sc k) (zip q ks'))
                          else ?fe, (calls @ [Suc k]) @ map Suc ks')"
    by (rule Cons(1)[OF len tl])
  also have "\<dots> = Some (if fe = None
                          then firstPermanentError isP (map (\<lambda>(sc, k). sc k) (zip (sc # q) ks))
                          else fe, calls @ map Suc ks)"
    unfolding ks using p np
    by (cases "permanent isP (sc k)"; cases fe) (auto simp: firstPermanentError_Cons)
  finally show ?case .
qed

text \<open>
  C5. Let every job of the queue (as the testing knob leaves it) reach, at attempt
  \<open>ks ! i\<close>, its first outcome that is not a retryable error. Then
  \<open>execSchemaChanges\<close> returns; it has called \<open>exec\<close> of the jobs in queue order,
  job \<open>i\<close> exactly \<open>ks ! i + 1\<close> times (so a job is not tried again after success, a
  missing descriptor or a permanent error, and the jobs after a permanent error are still
  run); the queue is cleared; and the error returned is the permanent error of the
  earliest job that ended with one, \<open>nil\<close> if there is none.
\<close>

theorem execSchemaChanges_first_permanent_error:
  assumes "q = (case SyncFilter of
                  Some f \<Rightarrow> if length (schemaChangers scc) > 0 then f (schemaChangers scc)
                            else schemaChangers scc
                | None \<Rightarrow> schemaChangers scc)"
    and "length ks = length q"
    and "\<forall>i < length q. \<not> retryable isP ((q ! i) (ks ! i)) \<and> (\<forall>k < ks ! i. retryable isP ((q ! i) k))"
  shows "execSchemaChanges isP SyncFilter scc =
           Some (scc\<lparr>schemaChangers := []\<rparr>,
                 firstPermanentError isP (map (\<lambda>(sc, k). sc k) (zip q ks)),
                 map Suc ks)"
  using execSchemaChanges_loop_result[OF assms(2,3), of None "[]"] assms(1)
  by (auto simp: execSchemaChanges_def Let_def split: option.splits)

text \<open>
  Three queued jobs: the first and the third succeed at once; the second fails with a
  retryable error, then with a permanent one.
\<close>

definition example_isPermanent :: "sc_error \<Rightarrow> bool" where
  "example_isPermanent err \<longleftrightarrow> err = SchemaChangeError ''violates constraint''"

definition example_queue :: "SchemaChanger list" where
  "example_queue =
     [\<lambda>k. None,
      \<lambda>k. if k = 0 then Some (SchemaChangeError ''try again'')
           else Some (SchemaChangeError ''violates constraint''),
      \<lambda>k. None]"

theorem execSchemaChanges_first_permanent_error_witness:
  "execSchemaChanges example_isPermanent None \<lparr>schemaChangers = example_queue\<rparr> =
     Some (\<lparr>schemaChangers = []\<rparr>, Some (SchemaChangeError ''violates constraint''), [1, 2, 1])"
proof -
  have h1: "example_queue = (case None :: (SchemaChanger list \<Rightarrow> SchemaChanger list) option of
                  Some f \<Rightarrow> if length (schemaChangers \<lparr>schemaChangers = example_queue\<rparr>) > 0
                            then f (schemaChangers \<lparr>schemaChangers = example_queue\<rparr>)
                            else schemaChangers \<lparr>schemaChangers = example_queue\<rparr>
                | None \<Rightarrow> schemaChangers \<lparr>schemaChangers = example_queue\<rparr>)"
    by simp
  have h2: "length [0, 1, 0 :: nat] = length example_queue"
    by (simp add: example_queue_def)
  have h3: "\<forall>i < length example_queue.
      \<not> retryable example_isPermanent ((example_queue ! i) ([0, 1, 0] ! i)) \<and>
      (\<forall>k < [0, 1, 0] ! i. retryable example_isPermanent ((example_queue ! i) k))"
    by (auto simp: example_queue_def example_isPermanent_def retryable_def less_Suc_eq nth_Cons'
          numeral_3_eq_3)
  from execSchemaChanges_first_permanent_error[OF h1 h2 h3]
  show ?thesis
    by (simp add: example_queue_def firstPermanentError_def permanent_def example_isPermanent_def)
qed

section \<open>The structure of a successful reduction\<close>

text \<open>
  The rows that the merge loop appends do not depend on the rows accumulated before, which
  gives an induction over the calls of a successful run in terms of the rows each call
  contributes.
\<close>

lemma getMessagesForSubtrace_loop_acc:
  "getMessagesForSubtrace_loop sp allSpans i j seen acc =
     (case getMessagesForSubtrace_loop sp allSpans i j seen [] of
        Inl err \<Rightarrow> Inl err
      | Inr (rest, seen') \<Rightarrow> Inr (acc @ rest, seen'))"
proof -
  have "\<forall>a. getMessagesForSubtrace_loop sp allSpans i j seen a =
     (case getMessagesForSubtrace_loop sp allSpans i j seen [] of
        Inl err \<Rightarrow> Inl err
      | Inr (rest, seen') \<Rightarrow> Inr (a @ rest, seen'))"
  proof (rule getMessagesForSubtrace_induct_clean(2)
      [where allSpans = allSpans and P = "\<lambda>sp seen. True" and
        Q = "\<lambda>sp i j seen acc. \<forall>a. getMessagesForSubtrace_loop sp allSpans i j seen a =
          (case getMessagesForSubtrace_loop sp allSpans i j seen [] of
             Inl err \<Rightarrow> Inl err
           | Inr (rest, seen') \<Rightarrow> Inr (a @ rest, seen'))"], goal_cases)
    case (1 sp seen)
    then show ?case by simp
  next
    case (2 sp i j seen acc)
    show ?case
    proof
      fix a
      show "getMessagesForSubtrace_loop sp allSpans i j seen a =
          (case getMessagesForSubtrace_loop sp allSpans i j seen [] of
             Inl err \<Rightarrow> Inl err
           | Inr (rest, seen') \<Rightarrow> Inr (a @ rest, seen'))"
      proof (cases "i < length (Logs (recordedSpan sp)) \<or> j < length (childSpansOf sp allSpans)")
        case False
        then show ?thesis
          by (subst (1 2) getMessagesForSubtrace_loop_eq) simp
      next
        case more: True
        show ?thesis
        proof (cases "logBeforeChild sp allSpans i j")
          case lb: True
          show ?thesis
          proof (cases "i < length (Logs (recordedSpan sp))")
            case il: True
            have e1: "getMessagesForSubtrace_loop sp allSpans i j seen a =
                getMessagesForSubtrace_loop sp allSpans (i + 1) j seen (a @ [logRow sp i])"
              using more lb il by (subst getMessagesForSubtrace_loop_eq) simp
            have e2: "getMessagesForSubtrace_loop sp allSpans i j seen [] =
                getMessagesForSubtrace_loop sp allSpans (i + 1) j seen [logRow sp i]"
              using more lb il by (subst getMessagesForSubtrace_loop_eq) simp
            note ih = 2(1)[OF il lb]
            show ?thesis
              unfolding e1 e2
              apply (subst ih[rule_format, of "a @ [logRow sp i]"])
              apply (subst ih[rule_format, of "[logRow sp i]"])
              apply (simp split: sum.splits prod.splits)
              done
          next
            case False
            with more lb show ?thesis
              by (subst (1 2) getMessagesForSubtrace_loop_eq) simp
          qed
        next
          case nl: False
          show ?thesis
          proof (cases "j < length (childSpansOf sp allSpans)")
            case jl: True
            show ?thesis
            proof (cases "getMessagesForSubtrace (childSpansOf sp allSpans ! j) allSpans seen")
              case (Inl e)
              with more nl jl show ?thesis
                by (subst (1 2) getMessagesForSubtrace_loop_eq) simp
            next
              case (Inr b)
              obtain msgs seen1 where b: "b = (msgs, seen1)" by (cases b)
              have e1: "getMessagesForSubtrace_loop sp allSpans i j seen a =
                  getMessagesForSubtrace_loop sp allSpans i (j + 1) seen1 (a @ msgs)"
                using more nl jl Inr b by (subst getMessagesForSubtrace_loop_eq) simp
              have e2: "getMessagesForSubtrace_loop sp allSpans i j seen [] =
                  getMessagesForSubtrace_loop sp allSpans i (j + 1) seen1 msgs"
                using more nl jl Inr b by (subst getMessagesForSubtrace_loop_eq) simp
              note ih = 2(3)[OF jl nl Inr[unfolded b]]
              show ?thesis
                unfolding e1 e2
                apply (subst ih[rule_format, of "a @ msgs"])
                apply (subst ih[rule_format, of msgs])
                apply (simp split: sum.splits prod.splits)
                done
            qed
          next
            case False
            with more nl show ?thesis
              by (subst (1 2) getMessagesForSubtrace_loop_eq) simp
          qed
        qed
      qed
    qed
  qed
  then show ?thesis by blast
qed


lemma getMessagesForSubtrace_loop_accD:
  assumes "getMessagesForSubtrace_loop sp allSpans i j seen acc = Inr (out, seen')"
  shows "\<exists>rest. out = acc @ rest \<and>
           getMessagesForSubtrace_loop sp allSpans i j seen [] = Inr (rest, seen')"
  using assms
  by (subst (asm) getMessagesForSubtrace_loop_acc) (auto split: sum.splits prod.splits)

lemma getMessagesForSubtrace_rows_induct_aux:
  assumes get: "\<And>sp seen rest seen'.
      \<lbrakk>SpanID (recordedSpan sp) \<notin> seen;
       getMessagesForSubtrace_loop sp allSpans 0 0 (insert (SpanID (recordedSpan sp)) seen) []
         = Inr (rest, seen');
       Q sp 0 0 (insert (SpanID (recordedSpan sp)) seen) rest seen'\<rbrakk>
      \<Longrightarrow> P sp seen (spanStartRow sp # rest) seen'"
    and fin: "\<And>sp i j seen.
      \<lbrakk>\<not> i < length (Logs (recordedSpan sp)); \<not> j < length (childSpansOf sp allSpans)\<rbrakk>
      \<Longrightarrow> Q sp i j seen [] seen"
    and log: "\<And>sp i j seen rest seen'.
      \<lbrakk>i < length (Logs (recordedSpan sp)); logBeforeChild sp allSpans i j;
       getMessagesForSubtrace_loop sp allSpans (i + 1) j seen [] = Inr (rest, seen');
       Q sp (i + 1) j seen rest seen'\<rbrakk>
      \<Longrightarrow> Q sp i j seen (logRow sp i # rest) seen'"
    and child: "\<And>sp i j seen msgs seen1 rest seen'.
      \<lbrakk>j < length (childSpansOf sp allSpans); \<not> logBeforeChild sp allSpans i j;
       getMessagesForSubtrace (childSpansOf sp allSpans ! j) allSpans seen = Inr (msgs, seen1);
       P (childSpansOf sp allSpans ! j) seen msgs seen1;
       getMessagesForSubtrace_loop sp allSpans i (j + 1) seen1 [] = Inr (rest, seen');
       Q sp i (j + 1) seen1 rest seen'\<rbrakk>
      \<Longrightarrow> Q sp i j seen (msgs @ rest) seen'"
  shows "getMessagesForSubtrace sp allSpans seen = Inr (msgs, seen') \<Longrightarrow> P sp seen msgs seen'"
    and "getMessagesForSubtrace_loop sp allSpans i j seen acc = Inr (out, seen') \<Longrightarrow>
           \<exists>rest. out = acc @ rest \<and> Q sp i j seen rest seen'"
proof -
  let ?Q = "\<lambda>sp i j seen acc out seen'. \<exists>rest. out = acc @ rest \<and>
      getMessagesForSubtrace_loop sp allSpans i j seen [] = Inr (rest, seen') \<and>
      Q sp i j seen rest seen'"
  have g: "P sp seen out seen'"
    if "SpanID (recordedSpan sp) \<notin> seen"
      and "?Q sp 0 0 (insert (SpanID (recordedSpan sp)) seen) [spanStartRow sp] out seen'"
    for sp seen out seen'
    using that get by auto
  have f: "?Q sp i j seen acc acc seen"
    if "\<not> i < length (Logs (recordedSpan sp))" "\<not> j < length (childSpansOf sp allSpans)"
    for sp i j seen acc
  proof -
    have "getMessagesForSubtrace_loop sp allSpans i j seen [] = Inr ([], seen)"
      using that by (subst getMessagesForSubtrace_loop_eq) simp
    with fin[OF that] show ?thesis by simp
  qed
  have l: "?Q sp i j seen acc out seen'"
    if il: "i < length (Logs (recordedSpan sp))" and lb: "logBeforeChild sp allSpans i j"
      and q: "?Q sp (i + 1) j seen (acc @ [logRow sp i]) out seen'"
    for sp i j seen acc out seen'
  proof -
    from q obtain rest where o: "out = (acc @ [logRow sp i]) @ rest"
      and r: "getMessagesForSubtrace_loop sp allSpans (i + 1) j seen [] = Inr (rest, seen')"
      and qq: "Q sp (i + 1) j seen rest seen'" by blast
    have "getMessagesForSubtrace_loop sp allSpans i j seen [] =
        getMessagesForSubtrace_loop sp allSpans (i + 1) j seen [logRow sp i]"
      using il lb by (subst getMessagesForSubtrace_loop_eq) simp
    also have "\<dots> = Inr (logRow sp i # rest, seen')"
      using r by (subst getMessagesForSubtrace_loop_acc) simp
    finally have "getMessagesForSubtrace_loop sp allSpans i j seen [] = Inr (logRow sp i # rest, seen')" .
    with o log[OF il lb r qq] show ?thesis by simp
  qed
  have c: "?Q sp i j seen acc out seen'"
    if jl: "j < length (childSpansOf sp allSpans)" and nl: "\<not> logBeforeChild sp allSpans i j"
      and gm: "getMessagesForSubtrace (childSpansOf sp allSpans ! j) allSpans seen = Inr (msgs, seen1)"
      and p: "P (childSpansOf sp allSpans ! j) seen msgs seen1"
      and q: "?Q sp i (j + 1) seen1 (acc @ msgs) out seen'"
    for sp i j seen acc msgs seen1 out seen'
  proof -
    from q obtain rest where o: "out = (acc @ msgs) @ rest"
      and r: "getMessagesForSubtrace_loop sp allSpans i (j + 1) seen1 [] = Inr (rest, seen')"
      and qq: "Q sp i (j + 1) seen1 rest seen'" by blast
    have "getMessagesForSubtrace_loop sp allSpans i j seen [] =
        getMessagesForSubtrace_loop sp allSpans i (j + 1) seen1 msgs"
      using jl nl gm by (subst getMessagesForSubtrace_loop_eq) simp
    also have "\<dots> = Inr (msgs @ rest, seen')"
      using r by (subst getMessagesForSubtrace_loop_acc) simp
    finally have "getMessagesForSubtrace_loop sp allSpans i j seen [] = Inr (msgs @ rest, seen')" .
    with o child[OF jl nl gm p r qq] show ?thesis by simp
  qed
  show "getMessagesForSubtrace sp allSpans seen = Inr (msgs, seen') \<Longrightarrow> P sp seen msgs seen'"
    apply (rule getMessagesForSubtrace_success_induct_aux(1)[where P = P and Q = ?Q and allSpans = allSpans])
        apply (rule g; assumption)
       apply (rule f; assumption)
      apply (rule l; assumption)
     apply (rule c; assumption)
    apply assumption
    done
  show "getMessagesForSubtrace_loop sp allSpans i j seen acc = Inr (out, seen') \<Longrightarrow>
           \<exists>rest. out = acc @ rest \<and> Q sp i j seen rest seen'"
  proof -
    assume a: "getMessagesForSubtrace_loop sp allSpans i j seen acc = Inr (out, seen')"
    have "?Q sp i j seen acc out seen'"
      apply (rule getMessagesForSubtrace_success_induct_aux(2)[where P = P and Q = ?Q and allSpans = allSpans])
          apply (rule g; assumption)
         apply (rule f; assumption)
        apply (rule l; assumption)
       apply (rule c; assumption)
      apply (rule a)
      done
    then show ?thesis by blast
  qed
qed

lemma getMessagesForSubtrace_rows_induct [consumes 1, case_names get fin log child]:
  assumes "getMessagesForSubtrace_loop sp allSpans i j seen [] = Inr (rest, seen')"
    and get: "\<And>sp seen rest seen'.
      \<lbrakk>SpanID (recordedSpan sp) \<notin> seen;
       getMessagesForSubtrace_loop sp allSpans 0 0 (insert (SpanID (recordedSpan sp)) seen) []
         = Inr (rest, seen');
       Q sp 0 0 (insert (SpanID (recordedSpan sp)) seen) rest seen'\<rbrakk>
      \<Longrightarrow> P sp seen (spanStartRow sp # rest) seen'"
    and fin: "\<And>sp i j seen.
      \<lbrakk>\<not> i < length (Logs (recordedSpan sp)); \<not> j < length (childSpansOf sp allSpans)\<rbrakk>
      \<Longrightarrow> Q sp i j seen [] seen"
    and log: "\<And>sp i j seen rest seen'.
      \<lbrakk>i < length (Logs (recordedSpan sp)); logBeforeChild sp allSpans i j;
       getMessagesForSubtrace_loop sp allSpans (i + 1) j seen [] = Inr (rest, seen');
       Q sp (i + 1) j seen rest seen'\<rbrakk>
      \<Longrightarrow> Q sp i j seen (logRow sp i # rest) seen'"
    and child: "\<And>sp i j seen msgs seen1 rest seen'.
      \<lbrakk>j < length (childSpansOf sp allSpans); \<not> logBeforeChild sp allSpans i j;
       getMessagesForSubtrace (childSpansOf sp allSpans ! j) allSpans seen = Inr (msgs, seen1);
       P (childSpansOf sp allSpans ! j) seen msgs seen1;
       getMessagesForSubtrace_loop sp allSpans i (j + 1) seen1 [] = Inr (rest, seen');
       Q sp i (j + 1) seen1 rest seen'\<rbrakk>
      \<Longrightarrow> Q sp i j seen (msgs @ rest) seen'"
  shows "Q sp i j seen rest seen'"
  using getMessagesForSubtrace_rows_induct_aux(2)[where P = P and Q = Q, OF get fin log child assms(1)]
  by simp

lemma getMessagesForSubtrace_startD:
  assumes "getMessagesForSubtrace sp allSpans seen = Inr (msgs, seen')"
  shows "SpanID (recordedSpan sp) \<notin> seen \<and>
         (\<exists>rest. msgs = spanStartRow sp # rest \<and>
            getMessagesForSubtrace_loop sp allSpans 0 0 (insert (SpanID (recordedSpan sp)) seen) []
              = Inr (rest, seen'))"
proof -
  from assms have ns: "SpanID (recordedSpan sp) \<notin> seen"
    by (auto simp: getMessagesForSubtrace_eq split: if_splits)
  with assms have "getMessagesForSubtrace_loop sp allSpans 0 0
      (insert (SpanID (recordedSpan sp)) seen) [spanStartRow sp] = Inr (msgs, seen')"
    by (simp add: getMessagesForSubtrace_eq)
  from getMessagesForSubtrace_loop_accD[OF this] ns show ?thesis by auto
qed

definition wf_span :: "RecordedSpan list \<Rightarrow> spanWithIndex \<Rightarrow> bool" where
  "wf_span allSpans sp \<longleftrightarrow> index sp < length allSpans \<and> recordedSpan sp = allSpans ! index sp"

definition rowIdxs :: "logRecordRow list \<Rightarrow> nat list" where
  "rowIdxs msgs = map (\<lambda>r. index (span r)) msgs"

definition startIdxs :: "logRecordRow list \<Rightarrow> nat list" where
  "startIdxs msgs = map (\<lambda>r. index (span r)) (filter (\<lambda>r. msg_index r = 0) msgs)"

definition idsOf :: "RecordedSpan list \<Rightarrow> nat set \<Rightarrow> 64 word set" where
  "idsOf allSpans X = (\<lambda>k. SpanID (allSpans ! k)) ` X"

definition block_basic ::
    "RecordedSpan list \<Rightarrow> 64 word set \<Rightarrow> logRecordRow list \<Rightarrow> 64 word set \<Rightarrow> bool" where
  "block_basic allSpans seen msgs seen' \<longleftrightarrow>
     seen' = seen \<union> idsOf allSpans (set (startIdxs msgs)) \<and>
     idsOf allSpans (set (startIdxs msgs)) \<inter> seen = {} \<and>
     distinct (map (\<lambda>k. SpanID (allSpans ! k)) (startIdxs msgs)) \<and>
     (\<forall>r \<in> set msgs. wf_span allSpans (span r))"

lemma rowIdxs_simps [simp]:
  "rowIdxs [] = []"
  "rowIdxs (r # msgs) = index (span r) # rowIdxs msgs"
  "rowIdxs (msgs @ msgs') = rowIdxs msgs @ rowIdxs msgs'"
  by (simp_all add: rowIdxs_def)

lemma startIdxs_simps [simp]:
  "startIdxs [] = []"
  "startIdxs (spanStartRow sp # msgs) = index sp # startIdxs msgs"
  "startIdxs (logRow sp i # msgs) = startIdxs msgs"
  "startIdxs (msgs @ msgs') = startIdxs msgs @ startIdxs msgs'"
  by (simp_all add: startIdxs_def spanStartRow_def logRow_def)

lemma span_simps [simp]:
  "span (spanStartRow sp) = sp" "span (logRow sp i) = sp"
  "msg_index (spanStartRow sp) = 0" "msg_index (logRow sp i) = i + 1"
  by (simp_all add: spanStartRow_def logRow_def)

lemma startIdxs_subset_rowIdxs: "set (startIdxs msgs) \<subseteq> set (rowIdxs msgs)"
  by (auto simp: startIdxs_def rowIdxs_def)

lemma idsOf_simps [simp]:
  "idsOf allSpans {} = {}"
  "idsOf allSpans (insert k X) = insert (SpanID (allSpans ! k)) (idsOf allSpans X)"
  "idsOf allSpans (X \<union> Y) = idsOf allSpans X \<union> idsOf allSpans Y"
  by (auto simp: idsOf_def)

lemma childSpansOf_indexes:
  "map index (childSpansOf sp allSpans) =
     filter (\<lambda>i. ParentSpanID (allSpans ! i) = SpanID (recordedSpan sp)) [0..<length allSpans]"
  by (simp add: childSpansOf_def getOrderedChildSpans_def comp_def)

lemma childSpansOf_nth:
  assumes "j < length (childSpansOf sp allSpans)"
  shows "wf_span allSpans (childSpansOf sp allSpans ! j)"
    and "ParentSpanID (allSpans ! index (childSpansOf sp allSpans ! j)) = SpanID (recordedSpan sp)"
proof -
  let ?f = "filter (\<lambda>i. ParentSpanID (allSpans ! i) = SpanID (recordedSpan sp)) [0..<length allSpans]"
  from assms have j: "j < length ?f"
    by (simp add: childSpansOf_def getOrderedChildSpans_def)
  then have m: "?f ! j \<in> set ?f" by (rule nth_mem)
  have c: "childSpansOf sp allSpans ! j = \<lparr>recordedSpan = allSpans ! (?f ! j), index = ?f ! j\<rparr>"
    using j by (simp add: childSpansOf_def getOrderedChildSpans_def)
  from m show "wf_span allSpans (childSpansOf sp allSpans ! j)"
    unfolding c wf_span_def by simp
  from m show "ParentSpanID (allSpans ! index (childSpansOf sp allSpans ! j)) = SpanID (recordedSpan sp)"
    unfolding c by simp
qed

lemma getMessagesForSubtrace_loop_basic:
  assumes "getMessagesForSubtrace_loop sp allSpans i j seen [] = Inr (rest, seen')"
  shows "wf_span allSpans sp \<longrightarrow>
           block_basic allSpans seen rest seen' \<and>
           set (rowIdxs rest) \<subseteq> insert (index sp) (set (startIdxs rest))"
  using assms
proof (induct rule: getMessagesForSubtrace_rows_induct[where
      P = "\<lambda>sp seen msgs seen'. wf_span allSpans sp \<longrightarrow>
             block_basic allSpans seen msgs seen' \<and>
             set (rowIdxs msgs) = set (startIdxs msgs) \<and> index sp \<in> set (startIdxs msgs)"])
  case (get sp seen rest seen')
  show ?case
  proof
    assume wf: "wf_span allSpans sp"
    with get(3) have b: "block_basic allSpans (insert (SpanID (recordedSpan sp)) seen) rest seen'"
      and r: "set (rowIdxs rest) \<subseteq> insert (index sp) (set (startIdxs rest))" by simp_all
    from wf have id: "SpanID (allSpans ! index sp) = SpanID (recordedSpan sp)"
      by (simp add: wf_span_def)
    have "block_basic allSpans seen (spanStartRow sp # rest) seen'"
      using b get(1) wf id unfolding block_basic_def
      by (auto simp: idsOf_def)
    moreover have "set (rowIdxs (spanStartRow sp # rest)) = set (startIdxs (spanStartRow sp # rest))"
      using r startIdxs_subset_rowIdxs[of rest] by auto
    ultimately show "block_basic allSpans seen (spanStartRow sp # rest) seen' \<and>
        set (rowIdxs (spanStartRow sp # rest)) = set (startIdxs (spanStartRow sp # rest)) \<and>
        index sp \<in> set (startIdxs (spanStartRow sp # rest))"
      by simp
  qed
next
  case (fin sp i j seen)
  then show ?case by (simp add: block_basic_def)
next
  case (log sp i j seen rest seen')
  then show ?case by (auto simp: block_basic_def)
next
  case (child sp i j seen msgs seen1 rest seen')
  show ?case
  proof
    assume wf: "wf_span allSpans sp"
    from childSpansOf_nth(1)[OF child(1)] child(4)
    have b1: "block_basic allSpans seen msgs seen1"
      and r1: "set (rowIdxs msgs) = set (startIdxs msgs)" by simp_all
    from wf child(6) have b2: "block_basic allSpans seen1 rest seen'"
      and r2: "set (rowIdxs rest) \<subseteq> insert (index sp) (set (startIdxs rest))" by simp_all
    have "block_basic allSpans seen (msgs @ rest) seen'"
      using b1 b2 unfolding block_basic_def
      by (auto simp: idsOf_def)
    moreover have "set (rowIdxs (msgs @ rest)) \<subseteq> insert (index sp) (set (startIdxs (msgs @ rest)))"
      using r1 r2 by auto
    ultimately show "block_basic allSpans seen (msgs @ rest) seen' \<and>
        set (rowIdxs (msgs @ rest)) \<subseteq> insert (index sp) (set (startIdxs (msgs @ rest)))"
      by simp
  qed
qed

lemma getMessagesForSubtrace_basic:
  assumes "getMessagesForSubtrace sp allSpans seen = Inr (msgs, seen')" and wf: "wf_span allSpans sp"
  shows "block_basic allSpans seen msgs seen'"
    and "set (rowIdxs msgs) = set (startIdxs msgs)"
    and "index sp \<in> set (startIdxs msgs)"
proof -
  from getMessagesForSubtrace_startD[OF assms(1)] obtain rest where
    ns: "SpanID (recordedSpan sp) \<notin> seen" and m: "msgs = spanStartRow sp # rest"
    and l: "getMessagesForSubtrace_loop sp allSpans 0 0 (insert (SpanID (recordedSpan sp)) seen) []
              = Inr (rest, seen')" by blast
  from getMessagesForSubtrace_loop_basic[OF l] wf
  have b: "block_basic allSpans (insert (SpanID (recordedSpan sp)) seen) rest seen'"
    and r: "set (rowIdxs rest) \<subseteq> insert (index sp) (set (startIdxs rest))" by simp_all
  from wf have id: "SpanID (allSpans ! index sp) = SpanID (recordedSpan sp)"
    by (simp add: wf_span_def)
  show "block_basic allSpans seen msgs seen'"
    using b ns wf id unfolding block_basic_def m
    by (auto simp: idsOf_def)
  show "set (rowIdxs msgs) = set (startIdxs msgs)"
    unfolding m using r startIdxs_subset_rowIdxs[of rest] by auto
  show "index sp \<in> set (startIdxs msgs)"
    unfolding m by simp
qed


lemma generateSessionTraceVTable_logs_invariant:
  assumes "generateSessionTraceVTable_logs spans k seen acc = Inr out"
    and "I k seen acc"
    and skip: "\<And>k seen acc. \<lbrakk>k < length spans; SpanID (spans ! k) \<in> seen; I k seen acc\<rbrakk>
                \<Longrightarrow> I (k + 1) seen acc"
    and step: "\<And>k seen acc msgs seen'.
                \<lbrakk>k < length spans; SpanID (spans ! k) \<notin> seen;
                 getMessagesForSubtrace \<lparr>recordedSpan = spans ! k, index = k\<rparr> spans seen
                   = Inr (msgs, seen');
                 I k seen acc\<rbrakk>
                \<Longrightarrow> I (k + 1) seen' (acc @ msgs)"
  shows "\<exists>seen'. I (max k (length spans)) seen' out"
  using assms
proof (induction spans k seen acc rule: generateSessionTraceVTable_logs.induct)
  case (1 spans k seenSpans allLogs)
  note eq = generateSessionTraceVTable_logs.simps[of spans k seenSpans allLogs]
  note skip = 1(5) and step = 1(6)
  show ?case
  proof (cases "k < length spans")
    case False
    with 1(3) eq have "out = allLogs" by simp
    moreover from False have "max k (length spans) = k" by simp
    ultimately show ?thesis using 1(4) by auto
  next
    case lt: True
    then have mx: "max (k + 1) (length spans) = max k (length spans)" by simp
    show ?thesis
    proof (cases "SpanID (spans ! k) \<in> seenSpans")
      case True
      from 1(3) eq lt True
      have r: "generateSessionTraceVTable_logs spans (k + 1) seenSpans allLogs = Inr out" by simp
      have "\<exists>seen'. I (max (k + 1) (length spans)) seen' out"
        by (rule 1(1)[OF lt True r skip[OF lt True 1(4)]]) (fact skip step)+
      with mx show ?thesis by simp
    next
      case ns: False
      from 1(3) eq lt ns obtain msgs seen' where
        g: "getMessagesForSubtrace \<lparr>recordedSpan = spans ! k, index = k\<rparr> spans seenSpans
              = Inr (msgs, seen')"
        and r: "generateSessionTraceVTable_logs spans (k + 1) seen' (allLogs @ msgs) = Inr out"
        by (auto split: sum.splits prod.splits)
      have "\<exists>seen'. I (max (k + 1) (length spans)) seen' out"
        by (rule 1(2)[OF lt ns g refl r step[OF lt ns g 1(4)]]) (fact skip step)+
      with mx show ?thesis by simp
    qed
  qed
qed

definition top_basic :: "RecordedSpan list \<Rightarrow> nat \<Rightarrow> 64 word set \<Rightarrow> logRecordRow list \<Rightarrow> bool" where
  "top_basic spans k seen acc \<longleftrightarrow>
     block_basic spans {} acc seen \<and>
     set (rowIdxs acc) = set (startIdxs acc) \<and>
     (\<forall>k' < k. k' < length spans \<longrightarrow> SpanID (spans ! k') \<in> seen)"

lemma wf_span_at: "k < length spans \<Longrightarrow> wf_span spans \<lparr>recordedSpan = spans ! k, index = k\<rparr>"
  by (simp add: wf_span_def)

lemma block_basic_append:
  "block_basic spans {} acc seen \<Longrightarrow> block_basic spans seen msgs seen' \<Longrightarrow>
   block_basic spans {} (acc @ msgs) seen'"
  unfolding block_basic_def by (auto simp: idsOf_def)

lemma generateSessionTraceVTable_logs_basic:
  assumes "generateSessionTraceVTable_logs spans 0 {} [] = Inr out"
  shows "\<exists>seen'. top_basic spans (length spans) seen' out"
proof -
  have "\<exists>seen'. top_basic spans (max 0 (length spans)) seen' out"
  proof (rule generateSessionTraceVTable_logs_invariant[OF assms, where I = "top_basic spans"],
      goal_cases)
    case 1
    show ?case by (simp add: top_basic_def block_basic_def)
  next
    case (2 k seen acc)
    then show ?case by (auto simp: top_basic_def less_Suc_eq)
  next
    case (3 k seen acc msgs seen')
    note b = getMessagesForSubtrace_basic[OF 3(3) wf_span_at[OF 3(1)]]
    from b(1) have s: "seen' = seen \<union> idsOf spans (set (startIdxs msgs))"
      by (simp add: block_basic_def)
    from b(3) have "SpanID (spans ! k) \<in> seen'"
      unfolding s by (auto simp: idsOf_def)
    with 3(4) b(2) block_basic_append[OF _ b(1)] show ?case
      unfolding top_basic_def using s by (auto simp: less_Suc_eq)
  qed
  then show ?thesis by simp
qed


inductive_set subtree :: "RecordedSpan list \<Rightarrow> nat \<Rightarrow> nat set"
  for allSpans :: "RecordedSpan list" and a :: nat
where
  root: "a < length allSpans \<Longrightarrow> a \<in> subtree allSpans a"
| child: "\<lbrakk>m \<in> subtree allSpans a; k < length allSpans;
           ParentSpanID (allSpans ! k) = SpanID (allSpans ! m)\<rbrakk>
          \<Longrightarrow> k \<in> subtree allSpans a"

lemma subtree_lt: "k \<in> subtree allSpans a \<Longrightarrow> k < length allSpans \<and> a < length allSpans"
  by (induction rule: subtree.induct) auto

lemma subtree_trans:
  "x \<in> subtree allSpans c \<Longrightarrow> c \<in> subtree allSpans a \<Longrightarrow> x \<in> subtree allSpans a"
  by (induction rule: subtree.induct) (auto intro: subtree.child)

lemma subtree_unfold:
  assumes "a < length allSpans"
  shows "subtree allSpans a =
           insert a (\<Union>x \<in> {x. x < length allSpans \<and> ParentSpanID (allSpans ! x) = SpanID (allSpans ! a)}.
                       subtree allSpans x)"
proof (intro set_eqI iffI)
  fix y
  assume "y \<in> subtree allSpans a"
  then show "y \<in> insert a (\<Union>x \<in> {x. x < length allSpans \<and>
      ParentSpanID (allSpans ! x) = SpanID (allSpans ! a)}. subtree allSpans x)"
  proof (induction rule: subtree.induct)
    case root
    then show ?case by simp
  next
    case (child m k)
    from child(4) show ?case
    proof
      assume "m = a"
      with child(2,3) have "k \<in> subtree allSpans k"
        "k < length allSpans \<and> ParentSpanID (allSpans ! k) = SpanID (allSpans ! a)"
        by (auto intro: subtree.root)
      then show ?thesis by blast
    next
      assume "m \<in> (\<Union>x \<in> {x. x < length allSpans \<and>
          ParentSpanID (allSpans ! x) = SpanID (allSpans ! a)}. subtree allSpans x)"
      then obtain x where "x < length allSpans" "ParentSpanID (allSpans ! x) = SpanID (allSpans ! a)"
        "m \<in> subtree allSpans x" by blast
      with child(2,3) have "k \<in> subtree allSpans x" by (auto intro: subtree.child)
      with \<open>x < length allSpans\<close> \<open>ParentSpanID (allSpans ! x) = SpanID (allSpans ! a)\<close>
      show ?thesis by blast
    qed
  qed
next
  fix y
  assume "y \<in> insert a (\<Union>x \<in> {x. x < length allSpans \<and>
      ParentSpanID (allSpans ! x) = SpanID (allSpans ! a)}. subtree allSpans x)"
  then show "y \<in> subtree allSpans a"
  proof
    assume "y = a"
    with assms show ?thesis by (simp add: subtree.root)
  next
    assume "y \<in> (\<Union>x \<in> {x. x < length allSpans \<and>
      ParentSpanID (allSpans ! x) = SpanID (allSpans ! a)}. subtree allSpans x)"
    then obtain x where x: "x < length allSpans" "ParentSpanID (allSpans ! x) = SpanID (allSpans ! a)"
      and y: "y \<in> subtree allSpans x" by blast
    from x assms have "x \<in> subtree allSpans a"
      by (auto intro: subtree.child subtree.root)
    with y show ?thesis by (rule subtree_trans)
  qed
qed

lemma childSpansOf_index_set:
  "index ` set (childSpansOf sp allSpans) =
     {x. x < length allSpans \<and> ParentSpanID (allSpans ! x) = SpanID (recordedSpan sp)}"
proof -
  have "index ` set (childSpansOf sp allSpans) = set (map index (childSpansOf sp allSpans))"
    by simp
  also have "\<dots> = {x. x < length allSpans \<and> ParentSpanID (allSpans ! x) = SpanID (recordedSpan sp)}"
    unfolding childSpansOf_indexes by auto
  finally show ?thesis .
qed

definition parent_started :: "RecordedSpan list \<Rightarrow> nat set \<Rightarrow> nat \<Rightarrow> bool" where
  "parent_started allSpans X x \<longleftrightarrow>
     (\<exists>m \<in> X. ParentSpanID (allSpans ! x) = SpanID (allSpans ! m))"

lemma getMessagesForSubtrace_loop_subtree:
  assumes "getMessagesForSubtrace_loop sp allSpans i j seen [] = Inr (rest, seen')"
  shows "wf_span allSpans sp \<longrightarrow>
           set (startIdxs rest) =
             (\<Union>c \<in> set (drop j (childSpansOf sp allSpans)). subtree allSpans (index c)) \<and>
           (\<forall>x \<in> set (startIdxs rest).
              parent_started allSpans (insert (index sp) (set (startIdxs rest))) x)"
  using assms
proof (induct rule: getMessagesForSubtrace_rows_induct[where
      P = "\<lambda>sp seen msgs seen'. wf_span allSpans sp \<longrightarrow>
             set (startIdxs msgs) = subtree allSpans (index sp) \<and>
             (\<forall>x \<in> set (startIdxs msgs). x \<noteq> index sp \<longrightarrow>
                parent_started allSpans (set (startIdxs msgs)) x)"])
  case (get sp seen rest seen')
  show ?case
  proof
    assume wf: "wf_span allSpans sp"
    from wf have id: "SpanID (allSpans ! index sp) = SpanID (recordedSpan sp)"
      and lt: "index sp < length allSpans"
      by (simp_all add: wf_span_def)
    from get(3) wf have s0: "set (startIdxs rest) =
        (\<Union>c \<in> set (drop 0 (childSpansOf sp allSpans)). subtree allSpans (index c))"
      and p: "\<forall>x \<in> set (startIdxs rest).
              parent_started allSpans (insert (index sp) (set (startIdxs rest))) x"
      by blast+
    from s0 have s: "set (startIdxs rest) =
        (\<Union>c \<in> set (childSpansOf sp allSpans). subtree allSpans (index c))"
      by simp
    have "(\<Union>c \<in> set (childSpansOf sp allSpans). subtree allSpans (index c)) =
        (\<Union>x \<in> index ` set (childSpansOf sp allSpans). subtree allSpans x)"
      by blast
    then have "set (startIdxs (spanStartRow sp # rest)) = subtree allSpans (index sp)"
      unfolding subtree_unfold[OF lt] id childSpansOf_index_set using s by simp
    moreover have "\<forall>x \<in> set (startIdxs (spanStartRow sp # rest)). x \<noteq> index sp \<longrightarrow>
                parent_started allSpans (set (startIdxs (spanStartRow sp # rest))) x"
      using p by simp
    ultimately show "set (startIdxs (spanStartRow sp # rest)) = subtree allSpans (index sp) \<and>
          (\<forall>x \<in> set (startIdxs (spanStartRow sp # rest)). x \<noteq> index sp \<longrightarrow>
                parent_started allSpans (set (startIdxs (spanStartRow sp # rest))) x)"
      by blast
  qed
next
  case (fin sp i j seen)
  then show ?case by simp
next
  case (log sp i j seen rest seen')
  from log(4) show ?case by (simp only: startIdxs_simps)
next
  case (child sp i j seen msgs seen1 rest seen')
  show ?case
  proof
    assume wf: "wf_span allSpans sp"
    from wf have id: "SpanID (allSpans ! index sp) = SpanID (recordedSpan sp)"
      by (simp add: wf_span_def)
    let ?c = "childSpansOf sp allSpans ! j"
    note c = childSpansOf_nth[OF child(1)]
    from child(4) c(1) have s1: "set (startIdxs msgs) = subtree allSpans (index ?c)"
      and p1: "\<forall>x \<in> set (startIdxs msgs). x \<noteq> index ?c \<longrightarrow>
                parent_started allSpans (set (startIdxs msgs)) x" by blast+
    from child(6) wf have s2: "set (startIdxs rest) =
        (\<Union>c \<in> set (drop (j + 1) (childSpansOf sp allSpans)). subtree allSpans (index c))"
      and p2: "\<forall>x \<in> set (startIdxs rest).
              parent_started allSpans (insert (index sp) (set (startIdxs rest))) x" by blast+
    have d: "drop j (childSpansOf sp allSpans) = ?c # drop (j + 1) (childSpansOf sp allSpans)"
      using child(1) by (simp add: Cons_nth_drop_Suc)
    have "set (startIdxs (msgs @ rest)) =
        (\<Union>c \<in> set (drop j (childSpansOf sp allSpans)). subtree allSpans (index c))"
      unfolding d using s1 s2 by simp
    moreover have "parent_started allSpans (insert (index sp) (set (startIdxs (msgs @ rest)))) x"
      if "x \<in> set (startIdxs (msgs @ rest))" for x
    proof -
      from that consider "x = index ?c" | "x \<in> set (startIdxs msgs)" "x \<noteq> index ?c"
        | "x \<in> set (startIdxs rest)" by auto
      then show ?thesis
      proof cases
        case 1
        with c(2) id show ?thesis by (auto simp: parent_started_def)
      next
        case 2
        with p1 show ?thesis by (auto simp: parent_started_def)
      next
        case 3
        with p2 show ?thesis by (auto simp: parent_started_def)
      qed
    qed
    ultimately show "set (startIdxs (msgs @ rest)) =
        (\<Union>c \<in> set (drop j (childSpansOf sp allSpans)). subtree allSpans (index c)) \<and>
        (\<forall>x \<in> set (startIdxs (msgs @ rest)).
           parent_started allSpans (insert (index sp) (set (startIdxs (msgs @ rest)))) x)"
      by blast
  qed
qed

lemma getMessagesForSubtrace_subtree:
  assumes "getMessagesForSubtrace sp allSpans seen = Inr (msgs, seen')" and wf: "wf_span allSpans sp"
  shows "set (startIdxs msgs) = subtree allSpans (index sp)"
    and "\<forall>x \<in> set (startIdxs msgs). x \<noteq> index sp \<longrightarrow>
           parent_started allSpans (set (startIdxs msgs)) x"
proof -
  from getMessagesForSubtrace_startD[OF assms(1)] obtain rest where
    m: "msgs = spanStartRow sp # rest"
    and l: "getMessagesForSubtrace_loop sp allSpans 0 0 (insert (SpanID (recordedSpan sp)) seen) []
              = Inr (rest, seen')" by blast
  from wf have id: "SpanID (allSpans ! index sp) = SpanID (recordedSpan sp)"
    and lt: "index sp < length allSpans"
    by (simp_all add: wf_span_def)
  from getMessagesForSubtrace_loop_subtree[OF l] wf
  have s0: "set (startIdxs rest) =
        (\<Union>c \<in> set (drop 0 (childSpansOf sp allSpans)). subtree allSpans (index c))"
    and p: "\<forall>x \<in> set (startIdxs rest).
              parent_started allSpans (insert (index sp) (set (startIdxs rest))) x"
    by blast+
  from s0 have s: "set (startIdxs rest) =
        (\<Union>c \<in> set (childSpansOf sp allSpans). subtree allSpans (index c))"
    by simp
  have "(\<Union>c \<in> set (childSpansOf sp allSpans). subtree allSpans (index c)) =
      (\<Union>x \<in> index ` set (childSpansOf sp allSpans). subtree allSpans x)"
    by blast
  then show "set (startIdxs msgs) = subtree allSpans (index sp)"
    unfolding subtree_unfold[OF lt] id childSpansOf_index_set m using s by simp
  show "\<forall>x \<in> set (startIdxs msgs). x \<noteq> index sp \<longrightarrow>
           parent_started allSpans (set (startIdxs msgs)) x"
    unfolding m using p by simp
qed


definition children_started :: "RecordedSpan list \<Rightarrow> nat set \<Rightarrow> bool" where
  "children_started spans X \<longleftrightarrow>
     (\<forall>m \<in> X. \<forall>x < length spans. ParentSpanID (spans ! x) = SpanID (spans ! m) \<longrightarrow> x \<in> X)"

lemma children_started_subtree: "children_started spans (subtree spans a)"
  by (auto simp: children_started_def intro: subtree.child)

lemma children_started_Un:
  "children_started spans X \<Longrightarrow> children_started spans Y \<Longrightarrow> children_started spans (X \<union> Y)"
  by (auto simp: children_started_def)

lemma generateSessionTraceVTable_logs_closed:
  assumes "generateSessionTraceVTable_logs spans 0 {} [] = Inr out"
  shows "children_started spans (set (startIdxs out))"
proof -
  have "\<exists>seen'::64 word set. children_started spans (set (startIdxs out))"
  proof (rule generateSessionTraceVTable_logs_invariant[OF assms,
        where I = "\<lambda>k seen acc. children_started spans (set (startIdxs acc))"], goal_cases)
    case 1
    show ?case by (simp add: children_started_def)
  next
    case (2 k seen acc)
    then show ?case by simp
  next
    case (3 k seen acc msgs seen')
    from getMessagesForSubtrace_subtree(1)[OF 3(3) wf_span_at[OF 3(1)]]
    have "set (startIdxs msgs) = subtree spans k" by simp
    with 3(4) children_started_subtree[of spans k] show ?case
      by (simp add: children_started_Un)
  qed
  then show ?thesis by simp
qed

lemma started_ids_distinct:
  assumes "distinct (map (\<lambda>k. SpanID (spans ! k)) xs)" and "a \<in> set xs" and "b \<in> set xs"
    and "a \<noteq> b"
  shows "SpanID (spans ! a) \<noteq> SpanID (spans ! b)"
  using assms by (auto simp: distinct_map inj_on_def)

lemma generateSessionTraceVTable_logs_started:
  assumes "generateSessionTraceVTable_logs spans 0 {} [] = Inr out"
  shows "distinct (map (\<lambda>k. SpanID (spans ! k)) (startIdxs out))"
    and "set (rowIdxs out) = set (startIdxs out)"
    and "\<forall>r \<in> set out. wf_span spans (span r)"
    and "\<forall>k < length spans. \<exists>m \<in> set (startIdxs out). SpanID (spans ! m) = SpanID (spans ! k)"
    and "distinct (map SpanID spans) \<Longrightarrow> k < length spans \<Longrightarrow> k \<in> set (startIdxs out)"
proof -
  from generateSessionTraceVTable_logs_basic[OF assms] obtain seen' where
    t: "top_basic spans (length spans) seen' out" by blast
  then have b: "block_basic spans {} out seen'"
    and r: "set (rowIdxs out) = set (startIdxs out)"
    and c: "\<forall>k' < length spans. SpanID (spans ! k') \<in> seen'"
    by (simp_all add: top_basic_def)
  from b show "distinct (map (\<lambda>k. SpanID (spans ! k)) (startIdxs out))"
    and wf: "\<forall>r \<in> set out. wf_span spans (span r)"
    by (simp_all add: block_basic_def)
  from r show "set (rowIdxs out) = set (startIdxs out)" .
  from b have s: "seen' = idsOf spans (set (startIdxs out))"
    by (simp add: block_basic_def)
  show cov: "\<forall>k < length spans. \<exists>m \<in> set (startIdxs out). SpanID (spans ! m) = SpanID (spans ! k)"
    using c unfolding s idsOf_def by force
  show "k \<in> set (startIdxs out)" if d: "distinct (map SpanID spans)" and k: "k < length spans"
  proof -
    from cov k obtain m where m: "m \<in> set (startIdxs out)" "SpanID (spans ! m) = SpanID (spans ! k)"
      by blast
    from m(1) r have "m \<in> set (rowIdxs out)" by simp
    then obtain row where "row \<in> set out" "m = index (span row)"
      by (auto simp: rowIdxs_def)
    with wf have "m < length spans" by (auto simp: wf_span_def)
    with d k m(2) have "m = k"
      by (metis distinct_conv_nth length_map nth_map)
    with m(1) show ?thesis by simp
  qed
qed

lemma traceRowOf_cols:
  assumes "traceRowOf lrr = Inr row"
  shows "col_span_idx row = DInt (int (index (span lrr)))"
    and "col_message_idx row = DInt (int (msg_index lrr))"
    and "col_timestamp row = DTimestampTZ (timestamp lrr)"
    and "col_operation row =
           (if msg_index lrr = 0 then DString (Operation (recordedSpan (span lrr))) else DNull)"
    and "col_duration row =
           (if msg_index lrr = 0 \<and> Duration (recordedSpan (span lrr)) \<noteq> 0
            then DInterval (Duration (recordedSpan (span lrr))) else DNull)"
  using assms
  by (auto simp: traceRowOf_def Let_def split: option.splits sum.splits)

lemma generateSessionTraceVTable_rows_all2:
  "generateSessionTraceVTable_rows allLogs res = Inr rows \<Longrightarrow>
     \<exists>rs. rows = res @ rs \<and> list_all2 (\<lambda>lrr row. traceRowOf lrr = Inr row) allLogs rs"
proof (induction allLogs arbitrary: res)
  case Nil
  then show ?case by simp
next
  case (Cons lrr allLogs)
  from Cons(2) obtain row where r: "traceRowOf lrr = Inr row"
    and g: "generateSessionTraceVTable_rows allLogs (res @ [row]) = Inr rows"
    by (auto split: sum.splits)
  from Cons(1)[OF g] obtain rs where "rows = (res @ [row]) @ rs"
    "list_all2 (\<lambda>lrr row. traceRowOf lrr = Inr row) allLogs rs" by blast
  with r show ?case by (intro exI[of _ "row # rs"]) simp
qed

lemma generateSessionTraceVTable_D:
  assumes "generateSessionTraceVTable spans = Inr rows"
  shows "\<exists>allLogs. generateSessionTraceVTable_logs spans 0 {} [] = Inr allLogs \<and>
           list_all2 (\<lambda>lrr row. traceRowOf lrr = Inr row) allLogs rows"
proof -
  from assms obtain allLogs where l: "generateSessionTraceVTable_logs spans 0 {} [] = Inr allLogs"
    and r: "generateSessionTraceVTable_rows allLogs [] = Inr rows"
    by (auto simp: generateSessionTraceVTable_def split: sum.splits)
  from generateSessionTraceVTable_rows_all2[OF r] l show ?thesis by auto
qed

lemma list_all2_filter_length:
  assumes "list_all2 R xs ys" and "\<And>x y. R x y \<Longrightarrow> p x = q y"
  shows "length (filter p xs) = length (filter q ys)"
  using assms by (induction rule: list_all2_induct) auto

lemma list_all2_image:
  assumes "list_all2 R xs ys" and "\<And>x y. R x y \<Longrightarrow> f x = g y"
  shows "map f xs = map g ys"
  using assms by (induction rule: list_all2_induct) auto

lemma distinct_filter_eq_length:
  "distinct xs \<Longrightarrow> length (filter (\<lambda>i. i = k) xs) = (if k \<in> set xs then 1 else 0)"
  by (induction xs) auto

lemma start_rows_count:
  assumes "list_all2 (\<lambda>lrr row. traceRowOf lrr = Inr row) allLogs rows"
  shows "length (filter (\<lambda>r. col_span_idx r = DInt (int k) \<and> col_message_idx r = DInt 0) rows) =
           length (filter (\<lambda>i. i = k) (startIdxs allLogs))"
proof -
  have "length (filter (\<lambda>lrr. index (span lrr) = k \<and> msg_index lrr = 0) allLogs) =
      length (filter (\<lambda>r. col_span_idx r = DInt (int k) \<and> col_message_idx r = DInt 0) rows)"
    by (rule list_all2_filter_length[OF assms]) (auto dest: traceRowOf_cols(1,2))
  moreover have "length (filter (\<lambda>i. i = k) (startIdxs allLogs)) =
      length (filter (\<lambda>lrr. index (span lrr) = k \<and> msg_index lrr = 0) allLogs)"
    unfolding startIdxs_def by (induction allLogs) auto
  ultimately show ?thesis by simp
qed

lemma row_span_idxs:
  assumes "list_all2 (\<lambda>lrr row. traceRowOf lrr = Inr row) allLogs rows"
  shows "map col_span_idx rows = map (\<lambda>i. DInt (int i)) (rowIdxs allLogs)"
proof -
  have "map (\<lambda>lrr. DInt (int (index (span lrr)))) allLogs = map col_span_idx rows"
    by (rule list_all2_image[OF assms]) (auto dest: traceRowOf_cols(1))
  then show ?thesis by (simp add: rowIdxs_def comp_def)
qed

text \<open>
  C7 (as the code has it). In a successful reduction no span has more than one row with
  message index 0; a span that has any row has exactly one, and when the span identifiers
  of the input are pairwise distinct every span of the input has exactly one. (A span
  that the first loop skips, because its identifier was seen before, has no row at all.)
  Every row belongs to a span of the input; on the row with message index 0 the operation
  cell is the span's operation name and the duration cell is the span's duration, or null
  when that duration is zero, whatever the span's children are; on every other row both
  cells are null.
\<close>

theorem start_row_per_span:
  assumes "generateSessionTraceVTable spans = Inr rows"
  shows "(\<forall>k < length spans.
            length (filter (\<lambda>r. col_span_idx r = DInt (int k) \<and> col_message_idx r = DInt 0) rows) \<le> 1 \<and>
            (distinct (map SpanID spans) \<or> DInt (int k) \<in> col_span_idx ` set rows \<longrightarrow>
             length (filter (\<lambda>r. col_span_idx r = DInt (int k) \<and> col_message_idx r = DInt 0) rows) = 1)) \<and>
         (\<forall>r \<in> set rows. \<exists>k < length spans. col_span_idx r = DInt (int k) \<and>
            (if col_message_idx r = DInt 0
             then col_operation r = DString (Operation (spans ! k)) \<and>
                  col_duration r =
                    (if Duration (spans ! k) = 0 then DNull else DInterval (Duration (spans ! k)))
             else col_operation r = DNull \<and> col_duration r = DNull))"
proof -
  from generateSessionTraceVTable_D[OF assms] obtain allLogs where
    l: "generateSessionTraceVTable_logs spans 0 {} [] = Inr allLogs"
    and a: "list_all2 (\<lambda>lrr row. traceRowOf lrr = Inr row) allLogs rows" by blast
  note s = generateSessionTraceVTable_logs_started[OF l]
  from s(1) have d: "distinct (startIdxs allLogs)"
    by (simp add: distinct_map)
  have cnt: "length (filter (\<lambda>r. col_span_idx r = DInt (int k) \<and> col_message_idx r = DInt 0) rows) =
      (if k \<in> set (startIdxs allLogs) then 1 else 0)" for k
    unfolding start_rows_count[OF a] by (rule distinct_filter_eq_length[OF d])
  have in_rows: "k \<in> set (startIdxs allLogs)" if "DInt (int k) \<in> col_span_idx ` set rows" for k
  proof -
    from that have "DInt (int k) \<in> set (map col_span_idx rows)" by simp
    then have "k \<in> set (rowIdxs allLogs)"
      unfolding row_span_idxs[OF a] by auto
    with s(2) show ?thesis by simp
  qed
  have first: "length (filter (\<lambda>r. col_span_idx r = DInt (int k) \<and> col_message_idx r = DInt 0) rows) \<le> 1 \<and>
      (distinct (map SpanID spans) \<or> DInt (int k) \<in> col_span_idx ` set rows \<longrightarrow>
       length (filter (\<lambda>r. col_span_idx r = DInt (int k) \<and> col_message_idx r = DInt 0) rows) = 1)"
    if k: "k < length spans" for k
    using cnt[of k] in_rows[of k] s(5)[OF _ k] by auto
  have second: "\<exists>k < length spans. col_span_idx r = DInt (int k) \<and>
            (if col_message_idx r = DInt 0
             then col_operation r = DString (Operation (spans ! k)) \<and>
                  col_duration r =
                    (if Duration (spans ! k) = 0 then DNull else DInterval (Duration (spans ! k)))
             else col_operation r = DNull \<and> col_duration r = DNull)"
    if r: "r \<in> set rows" for r
  proof -
    from r obtain p where p: "p < length rows" "r = rows ! p"
      by (auto simp: in_set_conv_nth)
    from a p have "traceRowOf (allLogs ! p) = Inr r" "p < length allLogs"
      by (auto simp: list_all2_conv_all_nth)
    then obtain lrr where lrr: "lrr \<in> set allLogs" and t: "traceRowOf lrr = Inr r"
      using nth_mem by blast
    from s(3) lrr have wf: "index (span lrr) < length spans"
      "recordedSpan (span lrr) = spans ! index (span lrr)"
      by (auto simp: wf_span_def)
    show ?thesis
      using wf(1) traceRowOf_cols[OF t] wf(2)
      by (intro exI[of _ "index (span lrr)"]) auto
  qed
  from first second show ?thesis by blast
qed

text \<open>
  The times of an input lie before the sentinel of the merge loop: every start time and
  every log time is earlier than \<open>maxTime\<close>.
\<close>

definition before_maxTime :: "RecordedSpan list \<Rightarrow> bool" where
  "before_maxTime spans \<longleftrightarrow>
     (\<forall>s \<in> set spans. StartTime s < maxTime \<and> (\<forall>l \<in> set (Logs s). Time l < maxTime))"

lemma getMessagesForSubtrace_duplicate_errors:
  assumes b: "before_maxTime allSpans"
  shows "recordedSpan sp \<in> set allSpans \<longrightarrow>
           (\<forall>e. getMessagesForSubtrace sp allSpans seen = Inl e \<longrightarrow> (\<exists>w. e = DuplicateSpan w))"
    and "recordedSpan sp \<in> set allSpans \<longrightarrow>
           (\<forall>e. getMessagesForSubtrace_loop sp allSpans i j seen acc = Inl e \<longrightarrow>
                (\<exists>w. e = DuplicateSpan w))"
proof (induction rule: getMessagesForSubtrace_induct_clean[where allSpans = allSpans])
  case (1 sp seen)
  then show ?case
    by (auto simp: getMessagesForSubtrace_eq)
next
  case (2 sp i j seen acc)
  show ?case
  proof (intro allI impI)
    fix e
    assume m: "recordedSpan sp \<in> set allSpans"
      and e: "getMessagesForSubtrace_loop sp allSpans i j seen acc = Inl e"
    note eq = getMessagesForSubtrace_loop_eq[of sp allSpans i j seen acc]
    from b m have logs: "\<And>l. l \<in> set (Logs (recordedSpan sp)) \<Longrightarrow> Time l < maxTime"
      by (simp add: before_maxTime_def)
    have child: "recordedSpan (childSpansOf sp allSpans ! j) \<in> set allSpans"
      if "j < length (childSpansOf sp allSpans)"
      using that getOrderedChildSpans_in_allSpans by (simp add: childSpansOf_def)
    show "\<exists>w. e = DuplicateSpan w"
    proof (cases "i < length (Logs (recordedSpan sp)) \<or> j < length (childSpansOf sp allSpans)")
      case False
      with e eq show ?thesis by simp
    next
      case c: True
      show ?thesis
      proof (cases "logBeforeChild sp allSpans i j")
        case lb: True
        show ?thesis
        proof (cases "i < length (Logs (recordedSpan sp))")
          case True
          with c lb e eq have "getMessagesForSubtrace_loop sp allSpans (i + 1) j seen
              (acc @ [logRow sp i]) = Inl e" by simp
          with 2(1)[OF True lb] m show ?thesis by blast
        next
          case False
          with c have jl: "j < length (childSpansOf sp allSpans)" by simp
          from b child[OF jl]
          have "StartTime (recordedSpan (childSpansOf sp allSpans ! j)) < maxTime"
            by (simp add: before_maxTime_def)
          with lb False jl show ?thesis by (simp add: logBeforeChild_def)
        qed
      next
        case nlb: False
        show ?thesis
        proof (cases "j < length (childSpansOf sp allSpans)")
          case jl: True
          show ?thesis
          proof (cases "getMessagesForSubtrace (childSpansOf sp allSpans ! j) allSpans seen")
            case (Inl err)
            with c nlb jl e eq have "err = e" by simp
            with 2(2)[OF jl nlb] child[OF jl] Inl show ?thesis by blast
          next
            case (Inr p)
            obtain msgs seen1 where p: "p = (msgs, seen1)" by (cases p)
            note g = Inr[unfolded p]
            with c nlb jl e eq have "getMessagesForSubtrace_loop sp allSpans i (j + 1) seen1
                (acc @ msgs) = Inl e" by simp
            with 2(3)[OF jl nlb g] m show ?thesis by blast
          qed
        next
          case False
          with c have il: "i < length (Logs (recordedSpan sp))" by simp
          from logs[OF nth_mem[OF il]] have "Time (Logs (recordedSpan sp) ! i) < maxTime" .
          with nlb False il show ?thesis by (simp add: logBeforeChild_def)
        qed
      qed
    qed
  qed
qed

lemma generateSessionTraceVTable_logs_duplicate_errors:
  assumes "generateSessionTraceVTable_logs spans spanIdx seen acc = Inl e"
    and "before_maxTime spans"
  shows "\<exists>w. e = DuplicateSpan w"
  using assms
proof (induction spans spanIdx seen acc rule: generateSessionTraceVTable_logs.induct)
  case (1 spans spanIdx seenSpans allLogs)
  note eq = generateSessionTraceVTable_logs.simps[of spans spanIdx seenSpans allLogs]
  show ?case
  proof (cases "spanIdx < length spans")
    case False
    with 1(3) eq show ?thesis by simp
  next
    case lt: True
    show ?thesis
    proof (cases "SpanID (spans ! spanIdx) \<in> seenSpans")
      case True
      with 1(3) eq lt 1(1)[OF lt True _ 1(4)] show ?thesis by simp
    next
      case ns: False
      show ?thesis
      proof (cases "getMessagesForSubtrace \<lparr>recordedSpan = spans ! spanIdx, index = spanIdx\<rparr>
                      spans seenSpans")
        case (Inl e')
        with 1(3) eq lt ns have "e' = e" by simp
        with Inl getMessagesForSubtrace_duplicate_errors(1)[OF 1(4),
            of "\<lparr>recordedSpan = spans ! spanIdx, index = spanIdx\<rparr>" seenSpans] lt
        show ?thesis by simp
      next
        case (Inr b)
        obtain msgs seen' where b: "b = (msgs, seen')" by (cases b)
        from 1(3) eq lt ns Inr b 1(2)[OF lt ns Inr b[symmetric] _ 1(4)] show ?thesis by simp
      qed
    qed
  qed
qed

text \<open>
  C1 (as the code has it). Let two different spans of the input have the same identifier.
  When the parent identifier of each of them is the identifier of some span of the input,
  so that both are reached as children, and the times of the input lie before the
  sentinel, the reduction returns the duplicate-span error. And no successful output
  holds rows of both spans: they are never merged. (A duplicate that only the first loop
  reaches, after its identifier was seen, is skipped without an error.)
\<close>

theorem duplicate_span_ids:
  assumes "i < length spans" and "j < length spans" and "i \<noteq> j"
    and "SpanID (spans ! i) = SpanID (spans ! j)"
  shows "(ParentSpanID (spans ! i) \<in> SpanID ` set spans \<and>
          ParentSpanID (spans ! j) \<in> SpanID ` set spans \<and> before_maxTime spans \<longrightarrow>
            (\<exists>w. generateSessionTraceVTable spans = Inl (DuplicateSpan w))) \<and>
         (\<forall>rows. generateSessionTraceVTable spans = Inr rows \<longrightarrow>
            \<not> (DInt (int i) \<in> col_span_idx ` set rows \<and> DInt (int j) \<in> col_span_idx ` set rows))"
proof -
  have err: "\<exists>w. e = DuplicateSpan w"
    if "generateSessionTraceVTable spans = Inl e" and bm: "before_maxTime spans" for e
  proof (cases "generateSessionTraceVTable_logs spans 0 {} []")
    case (Inl e')
    with that(1) have "e' = e" by (simp add: generateSessionTraceVTable_def)
    with generateSessionTraceVTable_logs_duplicate_errors[OF Inl bm] show ?thesis by simp
  next
    case (Inr allLogs)
    with that(1) generateSessionTraceVTable_rows_succeeds[of allLogs "[]"] show ?thesis
      by (auto simp: generateSessionTraceVTable_def)
  qed
  have both: False
    if l: "generateSessionTraceVTable_logs spans 0 {} [] = Inr allLogs"
      and "i \<in> set (startIdxs allLogs)" "j \<in> set (startIdxs allLogs)" for allLogs
    using started_ids_distinct[OF generateSessionTraceVTable_logs_started(1)[OF l] that(2,3) assms(3)]
      assms(4) by simp
  have started: "x \<in> set (startIdxs allLogs)"
    if l: "generateSessionTraceVTable_logs spans 0 {} [] = Inr allLogs"
      and x: "x < length spans" and p: "ParentSpanID (spans ! x) \<in> SpanID ` set spans"
    for allLogs x
  proof -
    from p obtain m where m: "m < length spans" "ParentSpanID (spans ! x) = SpanID (spans ! m)"
      by (auto simp: in_set_conv_nth)
    from generateSessionTraceVTable_logs_started(4)[OF l] m(1) obtain m' where
      m': "m' \<in> set (startIdxs allLogs)" "SpanID (spans ! m') = SpanID (spans ! m)" by blast
    from generateSessionTraceVTable_logs_closed[OF l] m' m(2) x show ?thesis
      by (auto simp: children_started_def)
  qed
  have one: "\<exists>w. generateSessionTraceVTable spans = Inl (DuplicateSpan w)"
    if p: "ParentSpanID (spans ! i) \<in> SpanID ` set spans"
      "ParentSpanID (spans ! j) \<in> SpanID ` set spans"
      and bm: "before_maxTime spans"
  proof (cases "generateSessionTraceVTable spans")
    case (Inl e)
    with err[OF Inl bm] show ?thesis by blast
  next
    case (Inr rows)
    from generateSessionTraceVTable_D[OF Inr] obtain allLogs where
      l: "generateSessionTraceVTable_logs spans 0 {} [] = Inr allLogs" by blast
    from both[OF l started[OF l assms(1) p(1)] started[OF l assms(2) p(2)]] show ?thesis ..
  qed
  have two: "\<not> (DInt (int i) \<in> col_span_idx ` set rows \<and> DInt (int j) \<in> col_span_idx ` set rows)"
    if g: "generateSessionTraceVTable spans = Inr rows" for rows
  proof
    assume b: "DInt (int i) \<in> col_span_idx ` set rows \<and> DInt (int j) \<in> col_span_idx ` set rows"
    from generateSessionTraceVTable_D[OF g] obtain allLogs where
      l: "generateSessionTraceVTable_logs spans 0 {} [] = Inr allLogs"
      and a: "list_all2 (\<lambda>lrr row. traceRowOf lrr = Inr row) allLogs rows" by blast
    have "k \<in> set (startIdxs allLogs)" if "DInt (int k) \<in> col_span_idx ` set rows" for k
    proof -
      from that have "DInt (int k) \<in> set (map col_span_idx rows)" by simp
      then have "k \<in> set (rowIdxs allLogs)"
        unfolding row_span_idxs[OF a] by auto
      with generateSessionTraceVTable_logs_started(2)[OF l] show ?thesis by simp
    qed
    with b both[OF l] show False by blast
  qed
  from one two show ?thesis by blast
qed


text \<open>A root span with two children that have the same identifier.\<close>

definition twin_children_spans :: "RecordedSpan list" where
  "twin_children_spans =
     [\<lparr>SpanID = 1, ParentSpanID = 0, Operation = ''a'', StartTime = 1, Duration = 9, Logs = []\<rparr>,
      \<lparr>SpanID = 2, ParentSpanID = 1, Operation = ''b'', StartTime = 2, Duration = 1, Logs = []\<rparr>,
      \<lparr>SpanID = 2, ParentSpanID = 1, Operation = ''c'', StartTime = 3, Duration = 1, Logs = []\<rparr>]"

theorem duplicate_span_ids_witness:
  "\<exists>w. generateSessionTraceVTable twin_children_spans = Inl (DuplicateSpan w)"
proof -
  have h: "1 < length twin_children_spans" "2 < length twin_children_spans" "(1::nat) \<noteq> 2"
    "SpanID (twin_children_spans ! 1) = SpanID (twin_children_spans ! 2)"
    by (simp_all add: twin_children_spans_def)
  have p: "ParentSpanID (twin_children_spans ! 1) \<in> SpanID ` set twin_children_spans \<and>
      ParentSpanID (twin_children_spans ! 2) \<in> SpanID ` set twin_children_spans \<and>
      before_maxTime twin_children_spans"
    by (simp add: twin_children_spans_def before_maxTime_def maxTime_def)
  from duplicate_span_ids[OF h] p show ?thesis by blast
qed

text \<open>
  A root span, its child, and a span with the child's identifier whose parent is not in
  the input.
\<close>

definition skipped_spans :: "RecordedSpan list" where
  "skipped_spans =
     [\<lparr>SpanID = 1, ParentSpanID = 0, Operation = ''a'', StartTime = 1, Duration = 9, Logs = []\<rparr>,
      \<lparr>SpanID = 2, ParentSpanID = 1, Operation = ''b'', StartTime = 2, Duration = 1, Logs = []\<rparr>,
      \<lparr>SpanID = 2, ParentSpanID = 7, Operation = ''c'', StartTime = 3, Duration = 1, Logs = []\<rparr>]"

text \<open>
  The claim C7 as the specification states it (each span contributes exactly one row with
  message index 0) fails on \<open>skipped_spans\<close>: the reduction succeeds and the span at
  position 2 has no row.
\<close>

theorem span_without_start_row_counterexample:
  "generateSessionTraceVTable skipped_spans =
     Inr [TraceRow (DInt 0) (DInt 0) (DTimestampTZ 1) (DInterval 9) (DString ''a'')
            (DString []) (DString []) (DString ''=== SPAN START: a ===''),
          TraceRow (DInt 1) (DInt 0) (DTimestampTZ 2) (DInterval 1) (DString ''b'')
            (DString []) (DString []) (DString ''=== SPAN START: b ==='')]"
  by code_simp

theorem start_row_per_span_witness:
  "\<exists>rows. generateSessionTraceVTable tie_spans = Inr rows \<and>
     length (filter (\<lambda>r. col_span_idx r = DInt (int 0) \<and> col_message_idx r = DInt 0) rows) = 1 \<and>
     length (filter (\<lambda>r. col_span_idx r = DInt (int 1) \<and> col_message_idx r = DInt 0) rows) = 1"
proof -
  have "generateSessionTraceVTable tie_spans =
     Inr [TraceRow (DInt 0) (DInt 0) (DTimestampTZ 1) DNull (DString ''a'')
            (DString []) (DString []) (DString ''=== SPAN START: a ===''),
          TraceRow (DInt 1) (DInt 0) (DTimestampTZ 5) (DInterval 7) (DString ''b'')
            (DString []) (DString []) (DString ''=== SPAN START: b ===''),
          TraceRow (DInt 0) (DInt 1) (DTimestampTZ 5) DNull DNull
            (DString []) (DString []) (DString ''x'')]"
    by code_simp
  then obtain rows where g: "generateSessionTraceVTable tie_spans = Inr rows" by blast
  have d: "distinct (map SpanID tie_spans)" and l: "0 < length tie_spans" "1 < length tie_spans"
    by (simp_all add: tie_spans_def)
  from start_row_per_span[OF g] d l g show ?thesis by blast
qed

subsection \<open>The order of sibling subtrees\<close>

text \<open>
  \<open>precedes L A B\<close>: in the list \<open>L\<close> every element of \<open>A\<close> stands before every element
  of \<open>B\<close>.
\<close>

definition precedes :: "nat list \<Rightarrow> nat set \<Rightarrow> nat set \<Rightarrow> bool" where
  "precedes L A B \<longleftrightarrow> (\<exists>L1 L2. L = L1 @ L2 \<and> set L1 \<inter> B = {} \<and> set L2 \<inter> A = {})"

lemma precedes_nth:
  assumes "precedes L A B" and "p < length L" and "q < length L" and "L ! p \<in> A" and "L ! q \<in> B"
  shows "p < q"
proof -
  from assms(1) obtain L1 L2 where L: "L = L1 @ L2" and b: "set L1 \<inter> B = {}"
    and a: "set L2 \<inter> A = {}" by (auto simp: precedes_def)
  have "p < length L1"
  proof (rule ccontr)
    assume "\<not> p < length L1"
    with assms(2) L have "L ! p \<in> set L2" by (auto simp: nth_append)
    with a assms(4) show False by blast
  qed
  moreover have "\<not> q < length L1"
  proof
    assume "q < length L1"
    with L have "L ! q \<in> set L1" by (auto simp: nth_append)
    with b assms(5) show False by blast
  qed
  ultimately show ?thesis by simp
qed

lemma precedes_split: "set L1 \<inter> B = {} \<Longrightarrow> set L2 \<inter> A = {} \<Longrightarrow> precedes (L1 @ L2) A B"
  unfolding precedes_def by blast

lemma precedes_append_left:
  assumes "set pre \<inter> B = {}" and "precedes M A B"
  shows "precedes (pre @ M) A B"
proof -
  from assms(2) obtain L1 L2 where "M = L1 @ L2" "set L1 \<inter> B = {}" "set L2 \<inter> A = {}"
    by (auto simp: precedes_def)
  with assms(1) have "pre @ M = (pre @ L1) @ L2" "set (pre @ L1) \<inter> B = {}" "set L2 \<inter> A = {}"
    by auto
  then show ?thesis unfolding precedes_def by blast
qed

lemma precedes_append_right:
  assumes "set post \<inter> A = {}" and "precedes M A B"
  shows "precedes (M @ post) A B"
proof -
  from assms(2) obtain L1 L2 where "M = L1 @ L2" "set L1 \<inter> B = {}" "set L2 \<inter> A = {}"
    by (auto simp: precedes_def)
  with assms(1) have "M @ post = L1 @ (L2 @ post)" "set L1 \<inter> B = {}" "set (L2 @ post) \<inter> A = {}"
    by auto
  then show ?thesis unfolding precedes_def by blast
qed

lemma precedes_Cons: "x \<notin> B \<Longrightarrow> precedes M A B \<Longrightarrow> precedes (x # M) A B"
  using precedes_append_left[of "[x]" B M A] by simp

definition siblings_ordered :: "RecordedSpan list \<Rightarrow> nat set \<Rightarrow> nat list \<Rightarrow> bool" where
  "siblings_ordered spans X L \<longleftrightarrow>
     (\<forall>m \<in> X. \<forall>a b. a < b \<and> b < length spans \<and>
        ParentSpanID (spans ! a) = SpanID (spans ! m) \<and>
        ParentSpanID (spans ! b) = SpanID (spans ! m) \<longrightarrow>
        precedes L (subtree spans a) (subtree spans b))"

lemma subtree_subset:
  assumes "children_started spans X" and "a \<in> X"
  shows "subtree spans a \<subseteq> X"
proof
  fix x
  assume "x \<in> subtree spans a"
  then show "x \<in> X"
    by (induction rule: subtree.induct) (use assms in \<open>auto simp: children_started_def\<close>)
qed

lemma child_subtree_subset:
  assumes "children_started spans X" and "m \<in> X" and "a < length spans"
    and "ParentSpanID (spans ! a) = SpanID (spans ! m)"
  shows "subtree spans a \<subseteq> X"
proof -
  from assms have "a \<in> X" by (auto simp: children_started_def)
  with assms(1) show ?thesis by (rule subtree_subset)
qed

lemma children_started_UN:
  "(\<And>c. c \<in> C \<Longrightarrow> children_started spans (f c)) \<Longrightarrow> children_started spans (\<Union>c \<in> C. f c)"
  unfolding children_started_def by blast

lemma fresh_disjoint:
  assumes "idsOf spans X \<subseteq> seen" and "idsOf spans Y \<inter> seen = {}"
  shows "X \<inter> Y = {}"
  using assms unfolding idsOf_def by blast

lemma sorted_positions:
  assumes "sorted_wrt (<) (xs :: nat list)" and "a \<in> set xs" and "b \<in> set xs" and "a < b"
  shows "\<exists>j1 j2. j1 < j2 \<and> j2 < length xs \<and> xs ! j1 = a \<and> xs ! j2 = b"
proof -
  from assms(2,3) obtain j1 j2 where j: "j1 < length xs" "xs ! j1 = a" "j2 < length xs" "xs ! j2 = b"
    by (auto simp: in_set_conv_nth)
  have "j1 < j2"
  proof (rule ccontr)
    assume "\<not> j1 < j2"
    then consider "j1 = j2" | "j2 < j1" by linarith
    then show False
    proof cases
      case 1
      with j assms(4) show False by simp
    next
      case 2
      from sorted_wrt_nth_less[OF assms(1) 2 j(1)] j assms(4) show False by simp
    qed
  qed
  with j show ?thesis by blast
qed

lemma childSpansOf_positions:
  assumes "a < b" and "b < length allSpans"
    and "ParentSpanID (allSpans ! a) = SpanID (recordedSpan sp)"
    and "ParentSpanID (allSpans ! b) = SpanID (recordedSpan sp)"
  shows "\<exists>j1 j2. j1 < j2 \<and> j2 < length (childSpansOf sp allSpans) \<and>
           index (childSpansOf sp allSpans ! j1) = a \<and> index (childSpansOf sp allSpans ! j2) = b"
proof -
  let ?xs = "map index (childSpansOf sp allSpans)"
  have s: "sorted_wrt (<) ?xs"
    unfolding childSpansOf_indexes by (simp add: sorted_wrt_filter)
  have "a \<in> set ?xs" "b \<in> set ?xs"
    unfolding childSpansOf_indexes using assms by auto
  from sorted_positions[OF s this assms(1)] obtain j1 j2 where
    "j1 < j2" "j2 < length ?xs" "?xs ! j1 = a" "?xs ! j2 = b" by blast
  then show ?thesis by (intro exI[of _ j1] exI[of _ j2]) simp
qed


lemma getMessagesForSubtrace_facts:
  assumes "getMessagesForSubtrace sp allSpans seen = Inr (msgs, seen')" and "wf_span allSpans sp"
  shows "seen' = seen \<union> idsOf allSpans (set (startIdxs msgs))"
    and "idsOf allSpans (set (startIdxs msgs)) \<inter> seen = {}"
    and "set (rowIdxs msgs) = set (startIdxs msgs)"
    and "set (startIdxs msgs) = subtree allSpans (index sp)"
    and "children_started allSpans (set (startIdxs msgs))"
  using getMessagesForSubtrace_basic[OF assms] getMessagesForSubtrace_subtree(1)[OF assms]
    children_started_subtree[of allSpans "index sp"]
  by (simp_all add: block_basic_def)

lemma getMessagesForSubtrace_loop_facts:
  assumes "getMessagesForSubtrace_loop sp allSpans i j seen [] = Inr (rest, seen')"
    and "wf_span allSpans sp"
  shows "seen' = seen \<union> idsOf allSpans (set (startIdxs rest))"
    and "idsOf allSpans (set (startIdxs rest)) \<inter> seen = {}"
    and "set (rowIdxs rest) \<subseteq> insert (index sp) (set (startIdxs rest))"
    and "set (startIdxs rest) =
           (\<Union>c \<in> set (drop j (childSpansOf sp allSpans)). subtree allSpans (index c))"
    and "children_started allSpans (set (startIdxs rest))"
proof -
  from getMessagesForSubtrace_loop_basic[OF assms(1)] assms(2)
  show "seen' = seen \<union> idsOf allSpans (set (startIdxs rest))"
    and "idsOf allSpans (set (startIdxs rest)) \<inter> seen = {}"
    and "set (rowIdxs rest) \<subseteq> insert (index sp) (set (startIdxs rest))"
    by (simp_all add: block_basic_def)
  from getMessagesForSubtrace_loop_subtree[OF assms(1)] assms(2)
  show s: "set (startIdxs rest) =
           (\<Union>c \<in> set (drop j (childSpansOf sp allSpans)). subtree allSpans (index c))"
    by blast
  show "children_started allSpans (set (startIdxs rest))"
    unfolding s by (rule children_started_UN) (rule children_started_subtree)
qed

lemma not_started_if_seen:
  assumes "idsOf allSpans X \<inter> seen = {}" and "SpanID (allSpans ! k) \<in> seen"
  shows "k \<notin> X"
  using assms unfolding idsOf_def by blast

definition later_children_ordered ::
    "RecordedSpan list \<Rightarrow> spanWithIndex \<Rightarrow> nat \<Rightarrow> nat list \<Rightarrow> bool" where
  "later_children_ordered allSpans sp j L \<longleftrightarrow>
     (\<forall>j1 j2. j \<le> j1 \<and> j1 < j2 \<and> j2 < length (childSpansOf sp allSpans) \<longrightarrow>
        precedes L (subtree allSpans (index (childSpansOf sp allSpans ! j1)))
                   (subtree allSpans (index (childSpansOf sp allSpans ! j2))))"

lemma siblings_ordered_start:
  assumes l: "getMessagesForSubtrace_loop sp allSpans 0 0 (insert (SpanID (recordedSpan sp)) seen) []
              = Inr (rest, seen')"
    and wf: "wf_span allSpans sp"
    and so: "siblings_ordered allSpans (set (startIdxs rest)) (rowIdxs rest)"
    and lc: "later_children_ordered allSpans sp 0 (rowIdxs rest)"
  shows "siblings_ordered allSpans (set (startIdxs (spanStartRow sp # rest)))
           (rowIdxs (spanStartRow sp # rest))"
proof -
  from wf have id: "SpanID (allSpans ! index sp) = SpanID (recordedSpan sp)"
    by (simp add: wf_span_def)
  note f = getMessagesForSubtrace_loop_facts[OF l wf]
  have nsp: "index sp \<notin> set (startIdxs rest)"
    by (rule not_started_if_seen[OF f(2)]) (simp add: id)
  have "precedes (rowIdxs (spanStartRow sp # rest)) (subtree allSpans a) (subtree allSpans b)"
    if m: "m \<in> set (startIdxs (spanStartRow sp # rest))" and ab: "a < b" "b < length allSpans"
      and pa: "ParentSpanID (allSpans ! a) = SpanID (allSpans ! m)"
      and pb: "ParentSpanID (allSpans ! b) = SpanID (allSpans ! m)" for m a b
  proof -
    have sub: "subtree allSpans b \<subseteq> set (startIdxs rest)"
    proof (cases "m = index sp")
      case True
      with pb id ab(2) have "b \<in> index ` set (childSpansOf sp allSpans)"
        unfolding childSpansOf_index_set by simp
      then have "subtree allSpans b \<subseteq>
          (\<Union>c \<in> set (drop 0 (childSpansOf sp allSpans)). subtree allSpans (index c))"
        by auto
      with f(4) show ?thesis by simp
    next
      case False
      with m have "m \<in> set (startIdxs rest)" by simp
      from child_subtree_subset[OF f(5) this ab(2) pb] show ?thesis .
    qed
    have p: "precedes (rowIdxs rest) (subtree allSpans a) (subtree allSpans b)"
    proof (cases "m = index sp")
      case True
      from childSpansOf_positions[OF ab pa[unfolded True id] pb[unfolded True id]]
      obtain j1 j2 where "j1 < j2" "j2 < length (childSpansOf sp allSpans)"
        "index (childSpansOf sp allSpans ! j1) = a" "index (childSpansOf sp allSpans ! j2) = b"
        by blast
      with lc show ?thesis unfolding later_children_ordered_def by force
    next
      case False
      with m have "m \<in> set (startIdxs rest)" by simp
      with so ab pa pb show ?thesis unfolding siblings_ordered_def by blast
    qed
    from nsp sub have "index sp \<notin> subtree allSpans b" by blast
    from precedes_Cons[OF this p] show ?thesis by simp
  qed
  then show ?thesis
    unfolding siblings_ordered_def by blast
qed

lemma siblings_ordered_append:
  assumes so1: "siblings_ordered spans X L" and so2: "siblings_ordered spans Y M"
    and c1: "children_started spans X" and c2: "children_started spans Y"
    and r1: "set L \<inter> Y = {}" and r2: "set M \<inter> X = {}"
  shows "siblings_ordered spans (X \<union> Y) (L @ M)"
  unfolding siblings_ordered_def
proof (intro ballI allI impI)
  fix m a b
  assume m: "m \<in> X \<union> Y"
    and h: "a < b \<and> b < length spans \<and>
      ParentSpanID (spans ! a) = SpanID (spans ! m) \<and>
      ParentSpanID (spans ! b) = SpanID (spans ! m)"
  then have al: "a < length spans" by simp
  from m consider "m \<in> X" | "m \<in> Y" by auto
  then show "precedes (L @ M) (subtree spans a) (subtree spans b)"
  proof cases
    case 1
    from child_subtree_subset[OF c1 1 al] h
    have "subtree spans a \<subseteq> X" by blast
    with r2 have "set M \<inter> subtree spans a = {}" by blast
    moreover from so1 1 h have "precedes L (subtree spans a) (subtree spans b)"
      unfolding siblings_ordered_def by blast
    ultimately show ?thesis by (rule precedes_append_right)
  next
    case 2
    from child_subtree_subset[OF c2 2] h
    have "subtree spans b \<subseteq> Y" by blast
    with r1 have "set L \<inter> subtree spans b = {}" by blast
    moreover from so2 2 h have "precedes M (subtree spans a) (subtree spans b)"
      unfolding siblings_ordered_def by blast
    ultimately show ?thesis by (rule precedes_append_left)
  qed
qed

lemma getMessagesForSubtrace_loop_ordered:
  assumes "getMessagesForSubtrace_loop sp allSpans i j seen [] = Inr (rest, seen')"
  shows "wf_span allSpans sp \<and> SpanID (recordedSpan sp) \<in> seen \<longrightarrow>
           siblings_ordered allSpans (set (startIdxs rest)) (rowIdxs rest) \<and>
           later_children_ordered allSpans sp j (rowIdxs rest)"
  using assms
proof (induct rule: getMessagesForSubtrace_rows_induct[where
      P = "\<lambda>sp seen msgs seen'. wf_span allSpans sp \<longrightarrow>
             siblings_ordered allSpans (set (startIdxs msgs)) (rowIdxs msgs)"])
  case (get sp seen rest seen')
  show ?case
  proof
    assume wf: "wf_span allSpans sp"
    from get(3) wf have "siblings_ordered allSpans (set (startIdxs rest)) (rowIdxs rest)"
      and "later_children_ordered allSpans sp 0 (rowIdxs rest)" by simp_all
    with get(2) wf
    show "siblings_ordered allSpans (set (startIdxs (spanStartRow sp # rest)))
        (rowIdxs (spanStartRow sp # rest))"
      by (rule siblings_ordered_start)
  qed
next
  case (fin sp i j seen)
  then show ?case
    by (simp add: siblings_ordered_def later_children_ordered_def precedes_def)
next
  case (log sp i j seen rest seen')
  show ?case
  proof
    assume a: "wf_span allSpans sp \<and> SpanID (recordedSpan sp) \<in> seen"
    then have wf: "wf_span allSpans sp" and sn: "SpanID (recordedSpan sp) \<in> seen" by simp_all
    from wf have id: "SpanID (allSpans ! index sp) = SpanID (recordedSpan sp)"
      by (simp add: wf_span_def)
    from log(4) a have so: "siblings_ordered allSpans (set (startIdxs rest)) (rowIdxs rest)"
      and lc: "later_children_ordered allSpans sp j (rowIdxs rest)" by simp_all
    note f = getMessagesForSubtrace_loop_facts[OF log(3) wf]
    have nsp: "index sp \<notin> set (startIdxs rest)"
      by (rule not_started_if_seen[OF f(2)]) (simp add: id sn)
    have 1: "siblings_ordered allSpans (set (startIdxs (logRow sp i # rest)))
        (rowIdxs (logRow sp i # rest))"
      unfolding siblings_ordered_def
    proof (intro ballI allI impI)
      fix m a b
      assume m: "m \<in> set (startIdxs (logRow sp i # rest))"
        and h: "a < b \<and> b < length allSpans \<and>
          ParentSpanID (allSpans ! a) = SpanID (allSpans ! m) \<and>
          ParentSpanID (allSpans ! b) = SpanID (allSpans ! m)"
      from m have m': "m \<in> set (startIdxs rest)" by simp
      from child_subtree_subset[OF f(5) m'] h have "subtree allSpans b \<subseteq> set (startIdxs rest)"
        by blast
      with nsp have "index sp \<notin> subtree allSpans b" by blast
      moreover from so m' h have "precedes (rowIdxs rest) (subtree allSpans a) (subtree allSpans b)"
        unfolding siblings_ordered_def by blast
      ultimately show "precedes (rowIdxs (logRow sp i # rest)) (subtree allSpans a) (subtree allSpans b)"
        using precedes_Cons by simp
    qed
    have 2: "later_children_ordered allSpans sp j (rowIdxs (logRow sp i # rest))"
      unfolding later_children_ordered_def
    proof (intro allI impI)
      fix j1 j2
      assume h: "j \<le> j1 \<and> j1 < j2 \<and> j2 < length (childSpansOf sp allSpans)"
      then have "childSpansOf sp allSpans ! j2 \<in> set (drop j (childSpansOf sp allSpans))"
        by (auto simp: in_set_conv_nth intro!: exI[of _ "j2 - j"])
      with f(4) have "subtree allSpans (index (childSpansOf sp allSpans ! j2)) \<subseteq> set (startIdxs rest)"
        by blast
      with nsp have "index sp \<notin> subtree allSpans (index (childSpansOf sp allSpans ! j2))" by blast
      moreover from lc h have "precedes (rowIdxs rest)
          (subtree allSpans (index (childSpansOf sp allSpans ! j1)))
          (subtree allSpans (index (childSpansOf sp allSpans ! j2)))"
        unfolding later_children_ordered_def by blast
      ultimately show "precedes (rowIdxs (logRow sp i # rest))
          (subtree allSpans (index (childSpansOf sp allSpans ! j1)))
          (subtree allSpans (index (childSpansOf sp allSpans ! j2)))"
        using precedes_Cons by simp
    qed
    from 1 2 show "siblings_ordered allSpans (set (startIdxs (logRow sp i # rest)))
        (rowIdxs (logRow sp i # rest)) \<and>
        later_children_ordered allSpans sp j (rowIdxs (logRow sp i # rest))" ..
  qed
next
  case (child sp i j seen msgs seen1 rest seen')
  show ?case
  proof
    assume a: "wf_span allSpans sp \<and> SpanID (recordedSpan sp) \<in> seen"
    then have wf: "wf_span allSpans sp" and sn: "SpanID (recordedSpan sp) \<in> seen" by simp_all
    from wf have id: "SpanID (allSpans ! index sp) = SpanID (recordedSpan sp)"
      by (simp add: wf_span_def)
    let ?cs = "childSpansOf sp allSpans"
    let ?c = "?cs ! j"
    note c = childSpansOf_nth[OF child(1)]
    note g = getMessagesForSubtrace_facts[OF child(3) c(1)]
    note f = getMessagesForSubtrace_loop_facts[OF child(5) wf]
    from g(1) sn have sn1: "SpanID (recordedSpan sp) \<in> seen1" by simp
    from child(4) c(1) have so1: "siblings_ordered allSpans (set (startIdxs msgs)) (rowIdxs msgs)"
      by simp
    from child(6) wf sn1 have so2: "siblings_ordered allSpans (set (startIdxs rest)) (rowIdxs rest)"
      and lc: "later_children_ordered allSpans sp (j + 1) (rowIdxs rest)" by simp_all
    have dis: "set (startIdxs msgs) \<inter> set (startIdxs rest) = {}"
      by (rule fresh_disjoint[OF _ f(2)]) (use g(1) in simp)
    have nsp1: "index sp \<notin> set (startIdxs msgs)"
      by (rule not_started_if_seen[OF g(2)]) (simp add: id sn)
    have nsp2: "index sp \<notin> set (startIdxs rest)"
      by (rule not_started_if_seen[OF f(2)]) (simp add: id sn1)
    have r2: "set (rowIdxs rest) \<inter> set (startIdxs msgs) = {}"
      using f(3) dis nsp1 by blast
    have r1: "set (rowIdxs msgs) \<inter> set (startIdxs rest) = {}"
      using g(3) dis by blast
    have 1: "siblings_ordered allSpans (set (startIdxs (msgs @ rest))) (rowIdxs (msgs @ rest))"
      using siblings_ordered_append[OF so1 so2 g(5) f(5) r1 r2] by simp
    have 2: "later_children_ordered allSpans sp j (rowIdxs (msgs @ rest))"
      unfolding later_children_ordered_def
    proof (intro allI impI)
      fix j1 j2
      assume h: "j \<le> j1 \<and> j1 < j2 \<and> j2 < length ?cs"
      then have "?cs ! j2 \<in> set (drop (j + 1) ?cs)"
        by (auto simp: in_set_conv_nth intro!: exI[of _ "j2 - (j + 1)"])
      with f(4) have sub2: "subtree allSpans (index (?cs ! j2)) \<subseteq> set (startIdxs rest)"
        by blast
      with r1 have b1: "set (rowIdxs msgs) \<inter> subtree allSpans (index (?cs ! j2)) = {}" by blast
      have "precedes (rowIdxs msgs @ rowIdxs rest)
          (subtree allSpans (index (?cs ! j1))) (subtree allSpans (index (?cs ! j2)))"
      proof (cases "j1 = j")
        case True
        from g(4) r2 have "set (rowIdxs rest) \<inter> subtree allSpans (index (?cs ! j1)) = {}"
          unfolding True by simp
        with b1 show ?thesis by (rule precedes_split)
      next
        case False
        with h have "j + 1 \<le> j1 \<and> j1 < j2 \<and> j2 < length ?cs" by simp
        with lc have "precedes (rowIdxs rest)
            (subtree allSpans (index (?cs ! j1))) (subtree allSpans (index (?cs ! j2)))"
          unfolding later_children_ordered_def by blast
        with b1 show ?thesis by (rule precedes_append_left)
      qed
      then show "precedes (rowIdxs (msgs @ rest))
          (subtree allSpans (index (?cs ! j1))) (subtree allSpans (index (?cs ! j2)))"
        by simp
    qed
    from 1 2 show "siblings_ordered allSpans (set (startIdxs (msgs @ rest))) (rowIdxs (msgs @ rest)) \<and>
        later_children_ordered allSpans sp j (rowIdxs (msgs @ rest))" ..
  qed
qed


lemma getMessagesForSubtrace_ordered:
  assumes "getMessagesForSubtrace sp allSpans seen = Inr (msgs, seen')" and wf: "wf_span allSpans sp"
  shows "siblings_ordered allSpans (set (startIdxs msgs)) (rowIdxs msgs)"
proof -
  from getMessagesForSubtrace_startD[OF assms(1)] obtain rest where
    m: "msgs = spanStartRow sp # rest"
    and l: "getMessagesForSubtrace_loop sp allSpans 0 0 (insert (SpanID (recordedSpan sp)) seen) []
              = Inr (rest, seen')" by blast
  from getMessagesForSubtrace_loop_ordered[OF l] wf
  have "siblings_ordered allSpans (set (startIdxs rest)) (rowIdxs rest)"
    and "later_children_ordered allSpans sp 0 (rowIdxs rest)" by simp_all
  with l wf show ?thesis unfolding m by (rule siblings_ordered_start)
qed

definition orphan :: "RecordedSpan list \<Rightarrow> nat \<Rightarrow> bool" where
  "orphan spans x \<longleftrightarrow> ParentSpanID (spans ! x) \<notin> SpanID ` set spans"

lemma orphan_subtree:
  assumes "x \<in> subtree spans r" and "orphan spans x"
  shows "x = r"
  using assms(1)
proof (cases rule: subtree.cases)
  case root
  then show ?thesis by simp
next
  case (child m)
  from child(1) subtree_lt have "m < length spans" by blast
  then have "SpanID (spans ! m) \<in> SpanID ` set spans" by simp
  with child(3) assms(2) show ?thesis by (simp add: orphan_def)
qed

lemma top_basic_skip:
  assumes "k < length spans" and "SpanID (spans ! k) \<in> seen" and "top_basic spans k seen acc"
  shows "top_basic spans (k + 1) seen acc"
  using assms by (auto simp: top_basic_def less_Suc_eq)

lemma top_basic_step:
  assumes k: "k < length spans"
    and g: "getMessagesForSubtrace \<lparr>recordedSpan = spans ! k, index = k\<rparr> spans seen
              = Inr (msgs, seen')"
    and t: "top_basic spans k seen acc"
  shows "top_basic spans (k + 1) seen' (acc @ msgs)"
proof -
  note b = getMessagesForSubtrace_basic[OF g wf_span_at[OF k]]
  from b(1) have s: "seen' = seen \<union> idsOf spans (set (startIdxs msgs))"
    by (simp add: block_basic_def)
  from b(3) have "SpanID (spans ! k) \<in> seen'"
    unfolding s by (auto simp: idsOf_def)
  with t b(2) block_basic_append[OF _ b(1)] show ?thesis
    unfolding top_basic_def using s by (auto simp: less_Suc_eq)
qed

lemma top_basic_seen:
  assumes "top_basic spans k seen acc"
  shows "seen = idsOf spans (set (startIdxs acc))"
    and "set (rowIdxs acc) = set (startIdxs acc)"
    and "k' < k \<Longrightarrow> k' < length spans \<Longrightarrow> SpanID (spans ! k') \<in> seen"
    and "m \<in> set (startIdxs acc) \<Longrightarrow> m < length spans"
proof -
  from assms have b: "block_basic spans {} acc seen"
    and r: "set (rowIdxs acc) = set (startIdxs acc)"
    and c: "\<forall>k' < k. k' < length spans \<longrightarrow> SpanID (spans ! k') \<in> seen"
    by (simp_all add: top_basic_def)
  from b show "seen = idsOf spans (set (startIdxs acc))" by (simp add: block_basic_def)
  from r show "set (rowIdxs acc) = set (startIdxs acc)" .
  from c show "k' < k \<Longrightarrow> k' < length spans \<Longrightarrow> SpanID (spans ! k') \<in> seen" by blast
  show "m < length spans" if "m \<in> set (startIdxs acc)"
  proof -
    from that r have "m \<in> set (rowIdxs acc)" by simp
    then obtain row where "row \<in> set acc" "m = index (span row)"
      by (auto simp: rowIdxs_def)
    with b show ?thesis by (auto simp: block_basic_def wf_span_def)
  qed
qed

lemma top_basic_started:
  assumes t: "top_basic spans k seen acc" and d: "distinct (map SpanID spans)"
    and a: "a < length spans" and s: "SpanID (spans ! a) \<in> seen"
  shows "a \<in> set (startIdxs acc)"
proof -
  from s top_basic_seen(1)[OF t] obtain m where m: "m \<in> set (startIdxs acc)"
    "SpanID (spans ! m) = SpanID (spans ! a)" by (auto simp: idsOf_def)
  from top_basic_seen(4)[OF t m(1)] have "m < length spans" .
  with d a m(2) have "m = a"
    by (metis distinct_conv_nth length_map nth_map)
  with m(1) show ?thesis by simp
qed

definition top_ordered ::
    "RecordedSpan list \<Rightarrow> nat \<Rightarrow> 64 word set \<Rightarrow> logRecordRow list \<Rightarrow> bool" where
  "top_ordered spans k seen acc \<longleftrightarrow>
     top_basic spans k seen acc \<and>
     children_started spans (set (startIdxs acc)) \<and>
     siblings_ordered spans (set (startIdxs acc)) (rowIdxs acc) \<and>
     (\<forall>a b. a < b \<and> b < k \<and> b < length spans \<and> orphan spans a \<and> orphan spans b \<longrightarrow>
        precedes (rowIdxs acc) (subtree spans a) (subtree spans b)) \<and>
     (\<forall>b. k \<le> b \<and> b < length spans \<and> orphan spans b \<longrightarrow> b \<notin> set (startIdxs acc))"

lemma top_ordered_skip:
  assumes k: "k < length spans" and s: "SpanID (spans ! k) \<in> seen"
    and d: "distinct (map SpanID spans)" and t: "top_ordered spans k seen acc"
  shows "top_ordered spans (k + 1) seen acc"
proof -
  from t have tb: "top_basic spans k seen acc"
    and cs: "children_started spans (set (startIdxs acc))"
    and so: "siblings_ordered spans (set (startIdxs acc)) (rowIdxs acc)"
    and po: "\<And>a b. a < b \<Longrightarrow> b < k \<Longrightarrow> b < length spans \<Longrightarrow> orphan spans a \<Longrightarrow> orphan spans b \<Longrightarrow>
        precedes (rowIdxs acc) (subtree spans a) (subtree spans b)"
    and no: "\<And>b. k \<le> b \<Longrightarrow> b < length spans \<Longrightarrow> orphan spans b \<Longrightarrow> b \<notin> set (startIdxs acc)"
    unfolding top_ordered_def by blast+
  from top_basic_started[OF tb d k s] have ks: "k \<in> set (startIdxs acc)" .
  have 1: "top_basic spans (k + 1) seen acc" by (rule top_basic_skip[OF k s tb])
  have 2: "precedes (rowIdxs acc) (subtree spans a) (subtree spans b)"
    if "a < b" "b < k + 1" "b < length spans" "orphan spans a" "orphan spans b" for a b
  proof (cases "b = k")
    case True
    with no[of k] k that(5) ks show ?thesis by simp
  next
    case False
    with that have "b < k" by simp
    from po[OF that(1) this that(3,4,5)] show ?thesis .
  qed
  have 3: "b \<notin> set (startIdxs acc)" if "k + 1 \<le> b" "b < length spans" "orphan spans b" for b
    using no[of b] that by simp
  from 1 cs so 2 3 show ?thesis unfolding top_ordered_def by blast
qed

lemma top_ordered_step:
  assumes k: "k < length spans"
    and g: "getMessagesForSubtrace \<lparr>recordedSpan = spans ! k, index = k\<rparr> spans seen
              = Inr (msgs, seen')"
    and d: "distinct (map SpanID spans)" and t: "top_ordered spans k seen acc"
  shows "top_ordered spans (k + 1) seen' (acc @ msgs)"
proof -
  from t have tb: "top_basic spans k seen acc"
    and cs: "children_started spans (set (startIdxs acc))"
    and so: "siblings_ordered spans (set (startIdxs acc)) (rowIdxs acc)"
    and po: "\<And>a b. a < b \<Longrightarrow> b < k \<Longrightarrow> b < length spans \<Longrightarrow> orphan spans a \<Longrightarrow> orphan spans b \<Longrightarrow>
        precedes (rowIdxs acc) (subtree spans a) (subtree spans b)"
    and no: "\<And>b. k \<le> b \<Longrightarrow> b < length spans \<Longrightarrow> orphan spans b \<Longrightarrow> b \<notin> set (startIdxs acc)"
    unfolding top_ordered_def by blast+
  note wf = wf_span_at[OF k]
  note f = getMessagesForSubtrace_facts[OF g wf]
  from f(4) have sk: "set (startIdxs msgs) = subtree spans k" by simp
  note ts = top_basic_seen[OF tb]
  have dis: "set (startIdxs acc) \<inter> set (startIdxs msgs) = {}"
    by (rule fresh_disjoint[OF _ f(2)]) (simp add: ts(1))
  from dis ts(2) have r1: "set (rowIdxs acc) \<inter> set (startIdxs msgs) = {}" by simp
  from dis f(3) have r2: "set (rowIdxs msgs) \<inter> set (startIdxs acc) = {}" by blast
  have early: "subtree spans a \<subseteq> set (startIdxs acc)" if "a < k" for a
  proof -
    from that k have al: "a < length spans" by simp
    from top_basic_started[OF tb d al ts(3)[OF that al]] have "a \<in> set (startIdxs acc)" .
    with cs show ?thesis by (rule subtree_subset)
  qed
  have 1: "top_basic spans (k + 1) seen' (acc @ msgs)" by (rule top_basic_step[OF k g tb])
  have 2: "children_started spans (set (startIdxs (acc @ msgs)))"
    using children_started_Un[OF cs f(5)] by simp
  have 3: "siblings_ordered spans (set (startIdxs (acc @ msgs))) (rowIdxs (acc @ msgs))"
    using siblings_ordered_append[OF so getMessagesForSubtrace_ordered[OF g wf] cs f(5) r1 r2]
    by simp
  have 4: "precedes (rowIdxs (acc @ msgs)) (subtree spans a) (subtree spans b)"
    if "a < b" "b < k + 1" "b < length spans" "orphan spans a" "orphan spans b" for a b
  proof -
    from that have ak: "a < k" by simp
    from early[OF ak] r2 have ma: "set (rowIdxs msgs) \<inter> subtree spans a = {}" by blast
    have "precedes (rowIdxs acc @ rowIdxs msgs) (subtree spans a) (subtree spans b)"
    proof (cases "b = k")
      case True
      from r1 sk have "set (rowIdxs acc) \<inter> subtree spans b = {}" unfolding True by simp
      then show ?thesis using ma by (rule precedes_split)
    next
      case False
      with that have "b < k" by simp
      from ma po[OF that(1) this that(3,4,5)] show ?thesis by (rule precedes_append_right)
    qed
    then show ?thesis by simp
  qed
  have 5: "b \<notin> set (startIdxs (acc @ msgs))"
    if "k + 1 \<le> b" "b < length spans" "orphan spans b" for b
  proof -
    from no[of b] that have "b \<notin> set (startIdxs acc)" by simp
    moreover have "b \<notin> subtree spans k"
    proof
      assume "b \<in> subtree spans k"
      from orphan_subtree[OF this that(3)] that(1) show False by simp
    qed
    ultimately show ?thesis using sk by simp
  qed
  from 1 2 3 4 5 show ?thesis unfolding top_ordered_def by blast
qed

lemma generateSessionTraceVTable_logs_ordered:
  assumes "generateSessionTraceVTable_logs spans 0 {} [] = Inr out"
    and d: "distinct (map SpanID spans)"
  shows "\<exists>seen'. top_ordered spans (length spans) seen' out"
proof -
  have "\<exists>seen'. top_ordered spans (max 0 (length spans)) seen' out"
  proof (rule generateSessionTraceVTable_logs_invariant[OF assms(1), where I = "top_ordered spans"],
      goal_cases)
    case 1
    show ?case
      by (simp add: top_ordered_def top_basic_def block_basic_def children_started_def
          siblings_ordered_def idsOf_def)
  next
    case (2 k seen acc)
    from top_ordered_skip[OF 2(1,2) d 2(3)] show ?case .
  next
    case (3 k seen acc msgs seen')
    from top_ordered_step[OF 3(1,3) d 3(4)] show ?case .
  qed
  then show ?thesis by simp
qed

lemma sorted_start_index:
  assumes "sorted_wrt (\<lambda>x y. StartTime x \<le> StartTime y) spans"
    and "a < length spans" and "b < length spans"
    and "StartTime (spans ! a) < StartTime (spans ! b)"
  shows "a < b"
proof (rule ccontr)
  assume "\<not> a < b"
  then consider "a = b" | "b < a" by linarith
  then show False
  proof cases
    case 1
    with assms(4) show False by simp
  next
    case 2
    from sorted_wrt_nth_less[OF assms(1) 2 assms(2)] assms(4) show False by simp
  qed
qed

lemma sibling_blocks_precede:
  assumes d: "distinct (map SpanID spans)"
    and l: "generateSessionTraceVTable_logs spans 0 {} [] = Inr out"
    and ab: "a < b" "b < length spans"
    and par: "ParentSpanID (spans ! a) = ParentSpanID (spans ! b)"
  shows "precedes (rowIdxs out) (subtree spans a) (subtree spans b)"
proof -
  from generateSessionTraceVTable_logs_ordered[OF l d] obtain seen' where
    t: "top_ordered spans (length spans) seen' out" by blast
  then have so: "siblings_ordered spans (set (startIdxs out)) (rowIdxs out)"
    and po: "\<And>a b. a < b \<Longrightarrow> b < length spans \<Longrightarrow> orphan spans a \<Longrightarrow> orphan spans b \<Longrightarrow>
        precedes (rowIdxs out) (subtree spans a) (subtree spans b)"
    unfolding top_ordered_def by blast+
  show ?thesis
  proof (cases "orphan spans a")
    case True
    with par have "orphan spans b" by (simp add: orphan_def)
    from po[OF ab True this] show ?thesis .
  next
    case False
    then obtain m where m: "m < length spans" "ParentSpanID (spans ! a) = SpanID (spans ! m)"
      by (auto simp: orphan_def in_set_conv_nth)
    from generateSessionTraceVTable_logs_started(5)[OF l d m(1)]
    have "m \<in> set (startIdxs out)" .
    with so ab m(2) par show ?thesis unfolding siblings_ordered_def by simp
  qed
qed

text \<open>
  C3. Sibling subtrees do not interleave, and they come out in the order of the input.
  Suppose the span identifiers of the input are pairwise distinct and the reduction
  returns rows. For two spans \<open>a\<close> and \<open>b\<close> with the same parent identifier, where \<open>a\<close>
  stands before \<open>b\<close> in the input (which is the case when the input is sorted by start time
  and \<open>a\<close> starts strictly earlier than \<open>b\<close>), every row of a span in the subtree of \<open>a\<close>
  stands before every row of a span in the subtree of \<open>b\<close>. The children are taken in
  input order (\<open>getOrderedChildSpans\<close> does not sort), so on an input that is not sorted
  by start time the child that starts later can come first.
\<close>

theorem sibling_subtrees_ordered:
  assumes "distinct (map SpanID spans)"
    and "generateSessionTraceVTable spans = Inr rows"
    and "a < length spans" and "b < length spans"
    and "ParentSpanID (spans ! a) = ParentSpanID (spans ! b)"
    and "a < b \<or> (sorted_wrt (\<lambda>x y. StartTime x \<le> StartTime y) spans \<and>
                    StartTime (spans ! a) < StartTime (spans ! b))"
    and "p < length rows" and "q < length rows"
    and "col_span_idx (rows ! p) = DInt (int x)" and "x \<in> subtree spans a"
    and "col_span_idx (rows ! q) = DInt (int y)" and "y \<in> subtree spans b"
  shows "p < q"
proof -
  from assms(6) sorted_start_index[OF _ assms(3,4)] have ab: "a < b" by blast
  from generateSessionTraceVTable_D[OF assms(2)] obtain allLogs where
    l: "generateSessionTraceVTable_logs spans 0 {} [] = Inr allLogs"
    and r: "list_all2 (\<lambda>lrr row. traceRowOf lrr = Inr row) allLogs rows" by blast
  note m = row_span_idxs[OF r]
  from m have len: "length (rowIdxs allLogs) = length rows"
    by (metis length_map)
  have nth: "col_span_idx (rows ! n) = DInt (int (rowIdxs allLogs ! n))" if "n < length rows" for n
  proof -
    from that have "col_span_idx (rows ! n) = map col_span_idx rows ! n" by simp
    also have "\<dots> = map (\<lambda>i. DInt (int i)) (rowIdxs allLogs) ! n" by (simp only: m)
    also from that len have "\<dots> = DInt (int (rowIdxs allLogs ! n))" by simp
    finally show ?thesis .
  qed
  from nth[OF assms(7)] assms(9) have px: "rowIdxs allLogs ! p = x" by simp
  from nth[OF assms(8)] assms(11) have qy: "rowIdxs allLogs ! q = y" by simp
  from sibling_blocks_precede[OF assms(1) l ab assms(4,5)]
  have "precedes (rowIdxs allLogs) (subtree spans a) (subtree spans b)" .
  from precedes_nth[OF this, of p q] assms(7,8,10,12) len px qy show ?thesis by simp
qed


text \<open>A parent with two children in start-time order, the first with a child of its own.\<close>

definition sibling_spans :: "RecordedSpan list" where
  "sibling_spans =
     [\<lparr>SpanID = 1, ParentSpanID = 0, Operation = ''r'', StartTime = 1, Duration = 20, Logs = []\<rparr>,
      \<lparr>SpanID = 2, ParentSpanID = 1, Operation = ''b'', StartTime = 5, Duration = 3, Logs = []\<rparr>,
      \<lparr>SpanID = 4, ParentSpanID = 2, Operation = ''g'', StartTime = 6, Duration = 1, Logs = []\<rparr>,
      \<lparr>SpanID = 3, ParentSpanID = 1, Operation = ''c'', StartTime = 10, Duration = 2, Logs = []\<rparr>]"

text \<open>The same parent, the child that starts later standing first in the input.\<close>

definition unsorted_siblings :: "RecordedSpan list" where
  "unsorted_siblings =
     [\<lparr>SpanID = 1, ParentSpanID = 0, Operation = ''r'', StartTime = 1, Duration = 20, Logs = []\<rparr>,
      \<lparr>SpanID = 2, ParentSpanID = 1, Operation = ''b'', StartTime = 10, Duration = 2, Logs = []\<rparr>,
      \<lparr>SpanID = 3, ParentSpanID = 1, Operation = ''c'', StartTime = 5, Duration = 3, Logs = []\<rparr>]"

text \<open>
  An input sorted by start time in which an identifier is repeated: the spans at positions
  2 and 3 have the same absent parent, the span at position 3 is skipped by the first
  loop, and the span at position 4 names its identifier as parent.
\<close>

definition repeated_id_siblings :: "RecordedSpan list" where
  "repeated_id_siblings =
     [\<lparr>SpanID = 1, ParentSpanID = 0, Operation = ''r'', StartTime = 1, Duration = 20, Logs = []\<rparr>,
      \<lparr>SpanID = 2, ParentSpanID = 1, Operation = ''a'', StartTime = 2, Duration = 9, Logs = []\<rparr>,
      \<lparr>SpanID = 8, ParentSpanID = 77, Operation = ''z'', StartTime = 3, Duration = 1, Logs = []\<rparr>,
      \<lparr>SpanID = 2, ParentSpanID = 77, Operation = ''b'', StartTime = 4, Duration = 1, Logs = []\<rparr>,
      \<lparr>SpanID = 5, ParentSpanID = 2, Operation = ''k'', StartTime = 5, Duration = 1, Logs = []\<rparr>]"

theorem sibling_subtrees_ordered_witness:
  "\<exists>rows. generateSessionTraceVTable sibling_spans = Inr rows \<and>
     col_span_idx (rows ! 2) = DInt 2 \<and> 2 \<in> subtree sibling_spans 1 \<and>
     col_span_idx (rows ! 3) = DInt 3 \<and> 3 \<in> subtree sibling_spans 3 \<and>
     StartTime (sibling_spans ! 1) < StartTime (sibling_spans ! 3) \<and> (2 :: nat) < 3"
proof -
  have g: "generateSessionTraceVTable sibling_spans =
     Inr [TraceRow (DInt 0) (DInt 0) (DTimestampTZ 1) (DInterval 20) (DString ''r'')
            (DString []) (DString []) (DString ''=== SPAN START: r ===''),
          TraceRow (DInt 1) (DInt 0) (DTimestampTZ 5) (DInterval 3) (DString ''b'')
            (DString []) (DString []) (DString ''=== SPAN START: b ===''),
          TraceRow (DInt 2) (DInt 0) (DTimestampTZ 6) (DInterval 1) (DString ''g'')
            (DString []) (DString []) (DString ''=== SPAN START: g ===''),
          TraceRow (DInt 3) (DInt 0) (DTimestampTZ 10) (DInterval 2) (DString ''c'')
            (DString []) (DString []) (DString ''=== SPAN START: c ==='')]"
    (is "_ = Inr ?rows")
    by code_simp
  have d: "distinct (map SpanID sibling_spans)"
    and l: "1 < length sibling_spans" "3 < length sibling_spans"
    and par: "ParentSpanID (sibling_spans ! 1) = ParentSpanID (sibling_spans ! 3)"
    and s: "sorted_wrt (\<lambda>x y. StartTime x \<le> StartTime y) sibling_spans"
    and st: "StartTime (sibling_spans ! 1) < StartTime (sibling_spans ! 3)"
    by (simp_all add: sibling_spans_def)
  have "1 \<in> subtree sibling_spans 1"
    by (rule subtree.root) (simp add: sibling_spans_def)
  then have x: "2 \<in> subtree sibling_spans 1"
    by (rule subtree.child) (simp_all add: sibling_spans_def)
  have y: "3 \<in> subtree sibling_spans 3"
    by (rule subtree.root) (simp add: sibling_spans_def)
  have c: "col_span_idx (?rows ! 2) = DInt (int 2)" "col_span_idx (?rows ! 3) = DInt (int 3)"
    "2 < length ?rows" "3 < length ?rows"
    by simp_all
  from s st have o: "1 < (3 :: nat) \<or>
      (sorted_wrt (\<lambda>x y. StartTime x \<le> StartTime y) sibling_spans \<and>
       StartTime (sibling_spans ! 1) < StartTime (sibling_spans ! 3))" by blast
  from sibling_subtrees_ordered[OF d g l par o c(3,4) c(1) x c(2) y]
  have "(2 :: nat) < 3" .
  with g c x y st show ?thesis by simp
qed

theorem later_start_sibling_first_counterexample:
  "(generateSessionTraceVTable unsorted_siblings =
      Inr [TraceRow (DInt 0) (DInt 0) (DTimestampTZ 1) (DInterval 20) (DString ''r'')
             (DString []) (DString []) (DString ''=== SPAN START: r ===''),
           TraceRow (DInt 1) (DInt 0) (DTimestampTZ 10) (DInterval 2) (DString ''b'')
             (DString []) (DString []) (DString ''=== SPAN START: b ===''),
           TraceRow (DInt 2) (DInt 0) (DTimestampTZ 5) (DInterval 3) (DString ''c'')
             (DString []) (DString []) (DString ''=== SPAN START: c ==='')] \<and>
    ParentSpanID (unsorted_siblings ! 2) = ParentSpanID (unsorted_siblings ! 1) \<and>
    StartTime (unsorted_siblings ! 2) < StartTime (unsorted_siblings ! 1)) \<and>
   (generateSessionTraceVTable repeated_id_siblings =
      Inr [TraceRow (DInt 0) (DInt 0) (DTimestampTZ 1) (DInterval 20) (DString ''r'')
             (DString []) (DString []) (DString ''=== SPAN START: r ===''),
           TraceRow (DInt 1) (DInt 0) (DTimestampTZ 2) (DInterval 9) (DString ''a'')
             (DString []) (DString []) (DString ''=== SPAN START: a ===''),
           TraceRow (DInt 4) (DInt 0) (DTimestampTZ 5) (DInterval 1) (DString ''k'')
             (DString []) (DString []) (DString ''=== SPAN START: k ===''),
           TraceRow (DInt 2) (DInt 0) (DTimestampTZ 3) (DInterval 1) (DString ''z'')
             (DString []) (DString []) (DString ''=== SPAN START: z ==='')] \<and>
    ParentSpanID (repeated_id_siblings ! 2) = ParentSpanID (repeated_id_siblings ! 3) \<and>
    StartTime (repeated_id_siblings ! 2) < StartTime (repeated_id_siblings ! 3) \<and>
    ParentSpanID (repeated_id_siblings ! 4) = SpanID (repeated_id_siblings ! 3))"
proof -
  have "generateSessionTraceVTable unsorted_siblings =
     Inr [TraceRow (DInt 0) (DInt 0) (DTimestampTZ 1) (DInterval 20) (DString ''r'')
            (DString []) (DString []) (DString ''=== SPAN START: r ===''),
          TraceRow (DInt 1) (DInt 0) (DTimestampTZ 10) (DInterval 2) (DString ''b'')
            (DString []) (DString []) (DString ''=== SPAN START: b ===''),
          TraceRow (DInt 2) (DInt 0) (DTimestampTZ 5) (DInterval 3) (DString ''c'')
            (DString []) (DString []) (DString ''=== SPAN START: c ==='')]"
    by code_simp
  moreover have "ParentSpanID (unsorted_siblings ! 2) = ParentSpanID (unsorted_siblings ! 1)"
    "StartTime (unsorted_siblings ! 2) < StartTime (unsorted_siblings ! 1)"
    by (simp_all add: unsorted_siblings_def)
  moreover have "generateSessionTraceVTable repeated_id_siblings =
     Inr [TraceRow (DInt 0) (DInt 0) (DTimestampTZ 1) (DInterval 20) (DString ''r'')
            (DString []) (DString []) (DString ''=== SPAN START: r ===''),
          TraceRow (DInt 1) (DInt 0) (DTimestampTZ 2) (DInterval 9) (DString ''a'')
            (DString []) (DString []) (DString ''=== SPAN START: a ===''),
          TraceRow (DInt 4) (DInt 0) (DTimestampTZ 5) (DInterval 1) (DString ''k'')
            (DString []) (DString []) (DString ''=== SPAN START: k ===''),
          TraceRow (DInt 2) (DInt 0) (DTimestampTZ 3) (DInterval 1) (DString ''z'')
            (DString []) (DString []) (DString ''=== SPAN START: z ==='')]"
    by code_simp
  moreover have
    "ParentSpanID (repeated_id_siblings ! 2) = ParentSpanID (repeated_id_siblings ! 3)"
    "StartTime (repeated_id_siblings ! 2) < StartTime (repeated_id_siblings ! 3)"
    "ParentSpanID (repeated_id_siblings ! 4) = SpanID (repeated_id_siblings ! 3)"
    by (simp_all add: repeated_id_siblings_def)
  ultimately show ?thesis by simp
qed

section \<open>Runs of the reducer\<close>

text \<open>
  What differs between two runs of the reducer on the same input is the state of the Go
  runtime, and the only part of it that the reducer touches is the map \<open>seenSpans\<close>. The
  runtime stores and iterates a map in an order that it chooses anew for every map and
  may change with every assignment, so two runs hold the same keys in different orders.
  A map of type \<open>map[uint64]struct{}\<close> is here the list of its keys, in the order of the
  run: \<open>make\<close> gives the empty list, a lookup \<open>_, ok := m[k]\<close> finds a key wherever it
  stands, and after an assignment \<open>m[k] = struct{}{}\<close> the keys of \<open>m\<close> and \<open>k\<close> stand in any
  order.
\<close>

type_synonym seenSpansMap = "64 word list"

definition mapaccess :: "seenSpansMap \<Rightarrow> 64 word \<Rightarrow> bool" where
  "mapaccess m k \<longleftrightarrow> k \<in> set m"

definition mapassign :: "seenSpansMap \<Rightarrow> 64 word \<Rightarrow> seenSpansMap \<Rightarrow> bool" where
  "mapassign m k m' \<longleftrightarrow> distinct m' \<and> set m' = insert k (set m)"

text \<open>
  The reducer as the relation between an input and the outcome of a run: one rule for
  each way through each branch of the source, the map threaded through the calls. An
  outcome is an error or the returned value; \<open>getMessagesForSubtrace\<close> also leaves the map.
\<close>

inductive getMessagesForSubtrace_run ::
    "RecordedSpan list \<Rightarrow> spanWithIndex \<Rightarrow> seenSpansMap \<Rightarrow>
      error + (logRecordRow list \<times> seenSpansMap) \<Rightarrow> bool"
  and getMessagesForSubtrace_loop_run ::
    "RecordedSpan list \<Rightarrow> spanWithIndex \<Rightarrow> nat \<Rightarrow> nat \<Rightarrow> seenSpansMap \<Rightarrow>
      logRecordRow list \<Rightarrow> error + (logRecordRow list \<times> seenSpansMap) \<Rightarrow> bool"
  for allSpans :: "RecordedSpan list"
where
  duplicate:
    "mapaccess seenSpans (SpanID (recordedSpan sp)) \<Longrightarrow>
     getMessagesForSubtrace_run allSpans sp seenSpans
       (Inl (DuplicateSpan (SpanID (recordedSpan sp))))"
| start:
    "\<lbrakk>\<not> mapaccess seenSpans (SpanID (recordedSpan sp));
      mapassign seenSpans (SpanID (recordedSpan sp)) seenSpans';
      getMessagesForSubtrace_loop_run allSpans sp 0 0 seenSpans' [spanStartRow sp] r\<rbrakk>
     \<Longrightarrow> getMessagesForSubtrace_run allSpans sp seenSpans r"
| exit:
    "\<lbrakk>\<not> i < length (Logs (recordedSpan sp)); \<not> j < length (childSpansOf sp allSpans)\<rbrakk>
     \<Longrightarrow> getMessagesForSubtrace_loop_run allSpans sp i j seenSpans allLogs
           (Inr (allLogs, seenSpans))"
| log:
    "\<lbrakk>logBeforeChild sp allSpans i j; i < length (Logs (recordedSpan sp));
      getMessagesForSubtrace_loop_run allSpans sp (i + 1) j seenSpans
        (allLogs @ [logRow sp i]) r\<rbrakk>
     \<Longrightarrow> getMessagesForSubtrace_loop_run allSpans sp i j seenSpans allLogs r"
| log_panic:
    "\<lbrakk>j < length (childSpansOf sp allSpans); logBeforeChild sp allSpans i j;
      \<not> i < length (Logs (recordedSpan sp))\<rbrakk>
     \<Longrightarrow> getMessagesForSubtrace_loop_run allSpans sp i j seenSpans allLogs
           (Inl IndexOutOfRange)"
| child:
    "\<lbrakk>\<not> logBeforeChild sp allSpans i j; j < length (childSpansOf sp allSpans);
      getMessagesForSubtrace_run allSpans (childSpansOf sp allSpans ! j) seenSpans
        (Inr (childMsgs, seenSpans'));
      getMessagesForSubtrace_loop_run allSpans sp i (j + 1) seenSpans'
        (allLogs @ childMsgs) r\<rbrakk>
     \<Longrightarrow> getMessagesForSubtrace_loop_run allSpans sp i j seenSpans allLogs r"
| child_error:
    "\<lbrakk>\<not> logBeforeChild sp allSpans i j; j < length (childSpansOf sp allSpans);
      getMessagesForSubtrace_run allSpans (childSpansOf sp allSpans ! j) seenSpans (Inl err)\<rbrakk>
     \<Longrightarrow> getMessagesForSubtrace_loop_run allSpans sp i j seenSpans allLogs (Inl err)"
| child_panic:
    "\<lbrakk>i < length (Logs (recordedSpan sp)); \<not> logBeforeChild sp allSpans i j;
      \<not> j < length (childSpansOf sp allSpans)\<rbrakk>
     \<Longrightarrow> getMessagesForSubtrace_loop_run allSpans sp i j seenSpans allLogs
           (Inl IndexOutOfRange)"




text \<open>
  The outcome of a call depends on the keys of the map only, not on their order: it is
  the value of the function at the set of the keys, and the map that the call leaves holds
  the keys that the function returns.
\<close>

definition keys_outcome ::
    "error + (logRecordRow list \<times> seenSpansMap) \<Rightarrow> error + (logRecordRow list \<times> 64 word set)" where
  "keys_outcome r = (case r of Inl err \<Rightarrow> Inl err | Inr (msgs, m) \<Rightarrow> Inr (msgs, set m))"

lemma keys_outcome_simps [simp]:
  "keys_outcome (Inl err) = Inl err"
  "keys_outcome (Inr (msgs, m)) = Inr (msgs, set m)"
  by (simp_all add: keys_outcome_def)











text \<open>
  Runs on \<open>tie_spans\<close>, derived rule by rule. The call for the child span may leave the
  two keys of the map in either order, and so may the call for the root span.
\<close>

definition tie_root :: spanWithIndex where
  "tie_root = \<lparr>recordedSpan = tie_spans ! 0, index = 0\<rparr>"

definition tie_child :: spanWithIndex where
  "tie_child = \<lparr>recordedSpan = tie_spans ! 1, index = 1\<rparr>"

lemma tie_child_run:
  assumes "mapassign [1] 2 m"
  shows "getMessagesForSubtrace_run tie_spans tie_child [1] (Inr ([spanStartRow tie_child], m))"
proof -
  note intros = getMessagesForSubtrace_run_getMessagesForSubtrace_loop_run.intros
  have sid: "SpanID (recordedSpan tie_child) = 2" by code_simp
  have na: "\<not> mapaccess [1] (SpanID (recordedSpan tie_child))" by code_simp
  have l0: "\<not> 0 < length (Logs (recordedSpan tie_child))" by code_simp
  have c0: "\<not> 0 < length (childSpansOf tie_child tie_spans)" by code_simp
  from l0 c0 have "getMessagesForSubtrace_loop_run tie_spans tie_child 0 0 m
      [spanStartRow tie_child] (Inr ([spanStartRow tie_child], m))"
    by (rule intros(3))
  with na assms[folded sid] show ?thesis by (rule intros(2))
qed

lemma tie_root_run:
  assumes "mapassign [1] 2 m"
  shows "getMessagesForSubtrace_run tie_spans tie_root []
           (Inr ([spanStartRow tie_root, spanStartRow tie_child, logRow tie_root 0], m))"
proof -
  note intros = getMessagesForSubtrace_run_getMessagesForSubtrace_loop_run.intros
  let ?acc = "([spanStartRow tie_root] @ [spanStartRow tie_child]) @ [logRow tie_root 0]"
  have na: "\<not> mapaccess [] (SpanID (recordedSpan tie_root))" by (simp add: mapaccess_def)
  have as: "mapassign [] (SpanID (recordedSpan tie_root)) [1]" by code_simp
  have c: "childSpansOf tie_root tie_spans ! 0 = tie_child" by code_simp
  have nlb: "\<not> logBeforeChild tie_root tie_spans 0 0" by code_simp
  have jl: "0 < length (childSpansOf tie_root tie_spans)" by code_simp
  have lb: "logBeforeChild tie_root tie_spans 0 (0 + 1)" by code_simp
  have il: "0 < length (Logs (recordedSpan tie_root))" by code_simp
  have l1: "\<not> 0 + 1 < length (Logs (recordedSpan tie_root))" by code_simp
  have c1: "\<not> 0 + 1 < length (childSpansOf tie_root tie_spans)" by code_simp
  from l1 c1 have "getMessagesForSubtrace_loop_run tie_spans tie_root (0 + 1) (0 + 1) m ?acc
      (Inr (?acc, m))"
    by (rule intros(3))
  with lb il have r1: "getMessagesForSubtrace_loop_run tie_spans tie_root 0 (0 + 1) m
      ([spanStartRow tie_root] @ [spanStartRow tie_child]) (Inr (?acc, m))"
    by (rule intros(4))
  from tie_child_run[OF assms]
  have r0: "getMessagesForSubtrace_run tie_spans (childSpansOf tie_root tie_spans ! 0) [1]
      (Inr ([spanStartRow tie_child], m))"
    by (simp only: c)
  from nlb jl r0 r1
  have "getMessagesForSubtrace_loop_run tie_spans tie_root 0 0 [1] [spanStartRow tie_root]
      (Inr (?acc, m))"
    by (rule intros(6))
  with na as have "getMessagesForSubtrace_run tie_spans tie_root [] (Inr (?acc, m))"
    by (rule intros(2))
  then show ?thesis by simp
qed

lemma tie_root_run_orders:
  "getMessagesForSubtrace_run tie_spans tie_root []
     (Inr ([spanStartRow tie_root, spanStartRow tie_child, logRow tie_root 0], [1, 2])) \<and>
   getMessagesForSubtrace_run tie_spans tie_root []
     (Inr ([spanStartRow tie_root, spanStartRow tie_child, logRow tie_root 0], [2, 1]))"
proof -
  have "mapassign [1] 2 [1, 2]" and "mapassign [1] 2 [2, 1]" by code_simp+
  then show ?thesis by (simp add: tie_root_run)
qed




end
